theory Spec2Isabelle
  imports Main
begin

section \<open>Instruction model\<close>

text \<open>
  Both programs of the repository (the timeline calculator \<^verbatim>\<open>pipeline_sim.c\<close> and the
  cycle-by-cycle simulator \<^verbatim>\<open>extended_simulator.c\<close>) parse the same three-operand
  instructions into the same \<^verbatim>\<open>Instr\<close> struct. Register names are C strings compared
  with \<^verbatim>\<open>strcmp\<close>; here they are \<^typ>\<open>string\<close>s compared with equality. The
  fields \<^verbatim>\<open>text\<close> (used for printing only) and \<^verbatim>\<open>finished\<close> (written at
  write-back, never read) are left out, as is all console and CSV output.
\<close>

datatype Op = OP_ADD | OP_SUB | OP_MOV | OP_BAD

record Instr =
  op :: Op
  rd :: string
  rs :: "string list"
  rs_count :: nat

text \<open>
  \<^verbatim>\<open>parse_line\<close> only ever stores instructions of this shape: two source slots,
  of which a \<^verbatim>\<open>mov\<close> uses the first (the second is the empty string) and
  \<^verbatim>\<open>add\<close>/\<^verbatim>\<open>sub\<close> use both; every stored register is \<^verbatim>\<open>x\<close> followed by
  digits, hence not empty.
\<close>

definition valid_instr :: "Instr \<Rightarrow> bool" where
  "valid_instr ins =
     (op ins \<noteq> OP_BAD \<and> length (rs ins) = 2 \<and> rd ins \<noteq> [] \<and>
      rs_count ins = (if op ins = OP_MOV then 1 else 2) \<and>
      list_all (\<lambda>r. r \<noteq> []) (take (rs_count ins) (rs ins)))"

text \<open>What \<^verbatim>\<open>parse_line\<close> stores for the three opcodes.\<close>

definition instr_add :: "string \<Rightarrow> string \<Rightarrow> string \<Rightarrow> Instr" where
  "instr_add d a b = \<lparr>op = OP_ADD, rd = d, rs = [a, b], rs_count = 2\<rparr>"

definition instr_sub :: "string \<Rightarrow> string \<Rightarrow> string \<Rightarrow> Instr" where
  "instr_sub d a b = \<lparr>op = OP_SUB, rd = d, rs = [a, b], rs_count = 2\<rparr>"

definition instr_mov :: "string \<Rightarrow> string \<Rightarrow> Instr" where
  "instr_mov d a = \<lparr>op = OP_MOV, rd = d, rs = [a, []], rs_count = 1\<rparr>"

definition valid_program :: "Instr list \<Rightarrow> bool" where
  "valid_program prog = (prog \<noteq> [] \<and> list_all valid_instr prog)"

text \<open>The registers an instruction reads: the first \<^verbatim>\<open>rs_count\<close> entries of \<^verbatim>\<open>rs\<close>.\<close>

definition sources :: "Instr \<Rightarrow> string list" where
  "sources ins = take (rs_count ins) (rs ins)"

section \<open>Hazard oracle\<close>

text \<open>
  \<^verbatim>\<open>for (int i=0;i<ins->rs_count;i++) if (strcmp(reg, ins->rs[i])==0) return 1; return 0;\<close>
  The loop, started at index \<open>i\<close>.
\<close>

function reg_in_sources_from :: "nat \<Rightarrow> string \<Rightarrow> Instr \<Rightarrow> bool" where
  "reg_in_sources_from i reg ins =
     (if i < rs_count ins
      then (if reg = rs ins ! i then True else reg_in_sources_from (i + 1) reg ins)
      else False)"
  by pat_completeness auto
termination
  by (relation "measure (\<lambda>(i, reg, ins). rs_count ins - i)") auto

declare reg_in_sources_from.simps [simp del]

definition reg_in_sources :: "string \<Rightarrow> Instr \<Rightarrow> bool" where
  "reg_in_sources reg ins = reg_in_sources_from 0 reg ins"

text \<open>
  \<^verbatim>\<open>needed_stalls_for_id\<close> of the simulator. Slots hold an index into the program or a
  negative number for a bubble. The C code reads \<^verbatim>\<open>prog[idx]\<close> without a bound check;
  that every index in a slot of a reachable state is below \<open>pc \<le> n\<close> is part of
  \<open>slot_occupancy_order\<close> below.
\<close>

definition needed_stalls_for_id :: "int \<Rightarrow> int \<Rightarrow> int \<Rightarrow> Instr list \<Rightarrow> int" where
  "needed_stalls_for_id id_idx ex_idx mem_idx prog =
     (if id_idx < 0 then 0
      else if ex_idx \<ge> 0 \<and> reg_in_sources (rd (prog ! nat ex_idx)) (prog ! nat id_idx) then 2
      else if mem_idx \<ge> 0 \<and> reg_in_sources (rd (prog ! nat mem_idx)) (prog ! nat id_idx) then 1
      else 0)"

section \<open>Timeline calculator\<close>

text \<open>
  The body of the first loop of \<^verbatim>\<open>pipeline_sim.c\<close>: \<open>d1\<close> and \<open>d2\<close> are the
  destinations of the previous two instructions, the empty string while there is none.
  \<^verbatim>\<open>int s=0; if (d1[0] && reg_in_sources(d1,&prog[i])) s=2;
  if (d2[0] && reg_in_sources(d2,&prog[i])) s = (s>1? s:1);\<close>
\<close>

definition stall_for :: "string \<Rightarrow> string \<Rightarrow> Instr \<Rightarrow> int" where
  "stall_for d1 d2 ins =
     (let s0 = 0;
          s1 = (if d1 \<noteq> [] \<and> reg_in_sources d1 ins then 2 else s0);
          s2 = (if d2 \<noteq> [] \<and> reg_in_sources d2 ins then (if s1 > 1 then s1 else 1) else s1)
      in s2)"

fun stalls_loop :: "string \<Rightarrow> string \<Rightarrow> Instr list \<Rightarrow> int list" where
  "stalls_loop d1 d2 [] = []"
| "stalls_loop d1 d2 (ins # rest) = stall_for d1 d2 ins # stalls_loop (rd ins) d1 rest"

definition stalls :: "Instr list \<Rightarrow> int list" where
  "stalls prog = stalls_loop [] [] prog"

text \<open>The second loop: the five stage-entry cycles of each instruction.\<close>

record Row =
  IFc :: int
  IDc :: int
  EXc :: int
  MEMc :: int
  WBc :: int

fun timeline_loop :: "int \<Rightarrow> int list \<Rightarrow> Row list" where
  "timeline_loop curIF [] = []"
| "timeline_loop curIF (s # ss) =
     (let start_if = curIF + s
      in \<lparr>IFc = start_if, IDc = start_if + 1, EXc = start_if + 2,
          MEMc = start_if + 3, WBc = start_if + 4\<rparr>
         # timeline_loop (start_if + 1) ss)"

definition timeline :: "Instr list \<Rightarrow> Row list" where
  "timeline prog = timeline_loop 1 (stalls prog)"

definition sum_stalls :: "Instr list \<Rightarrow> int" where
  "sum_stalls prog = sum_list (stalls prog)"

definition base_cycles :: "Instr list \<Rightarrow> int" where
  "base_cycles prog = int (length prog) + 4"

text \<open>\<^verbatim>\<open>int total_cycles = WBc[n-1];\<close> (\<^verbatim>\<open>main\<close> has returned before if \<open>n = 0\<close>).\<close>

definition total_cycles :: "Instr list \<Rightarrow> int" where
  "total_cycles prog = WBc (timeline prog ! (length prog - 1))"

section \<open>Cycle simulator\<close>

text \<open>
  The local variables of \<^verbatim>\<open>main\<close> that the loop changes. \<^verbatim>\<open>pipe\<close> is the array
  \<^verbatim>\<open>int pipe[5]\<close>, read and written at the constant indices 0 (IF) to 4 (WB) only.
  The counters are C \<^verbatim>\<open>int\<close>s (\<^verbatim>\<open>total_stalls\<close> a \<^verbatim>\<open>long\<close>); with at most
  \<^verbatim>\<open>MAX_INSTR = 4096\<close> instructions none of them exceeds \<open>3 * 4096 + 5\<close>
  (see \<open>cycle_totals_compared\<close>), so they are modelled as unbounded integers.
\<close>

record SimState =
  pipe :: "int list"
  pc :: int
  completed :: int
  total_stalls :: int
  cycle :: int
  stall_counter :: int

definition init_state :: SimState where
  "init_state = \<lparr>pipe = [-1, -1, -1, -1, -1], pc = 0, completed = 0,
                 total_stalls = 0, cycle = 0, stall_counter = 0\<rparr>"

text \<open>\<^verbatim>\<open>if (pipe[4] >= 0) { write_back_action(...); completed++; pipe[4] = -1; }\<close>\<close>

definition write_back :: "SimState \<Rightarrow> SimState" where
  "write_back s =
     (if pipe s ! 4 \<ge> 0
      then s\<lparr>completed := completed s + 1, pipe := (pipe s)[4 := -1]\<rparr>
      else s)"

text \<open>\<^verbatim>\<open>if (pipe[a] >= 0) { pipe[b] = pipe[a]; pipe[a] = -1; }\<close>\<close>

definition move_slot :: "nat \<Rightarrow> nat \<Rightarrow> SimState \<Rightarrow> SimState" where
  "move_slot a b s =
     (if pipe s ! a \<ge> 0
      then s\<lparr>pipe := (pipe s)[b := pipe s ! a, a := -1]\<rparr>
      else s)"

text \<open>The branch taken while \<^verbatim>\<open>stall_counter > 0\<close>.\<close>

definition stall_cycle :: "SimState \<Rightarrow> SimState" where
  "stall_cycle s =
     (let s1 = move_slot 3 4 s;
          s2 = move_slot 2 3 s1
      in s2\<lparr>total_stalls := total_stalls s2 + 1, stall_counter := stall_counter s2 - 1\<rparr>)"

text \<open>\<^verbatim>\<open>if (pc < n) { pipe[0] = pc++; } else pipe[0] = -1;\<close>\<close>

definition fetch :: "int \<Rightarrow> SimState \<Rightarrow> SimState" where
  "fetch n s =
     (if pc s < n
      then s\<lparr>pipe := (pipe s)[0 := pc s], pc := pc s + 1\<rparr>
      else s\<lparr>pipe := (pipe s)[0 := -1]\<rparr>)"

definition advance :: "int \<Rightarrow> SimState \<Rightarrow> SimState" where
  "advance n s =
     (let s1 = move_slot 3 4 s;
          s2 = move_slot 2 3 s1;
          s3 = move_slot 1 2 s2;
          s4 = move_slot 0 1 s3
      in fetch n s4)"

text \<open>
  The hazard check after the shift. \<^verbatim>\<open>revert_move\<close> is the body of the inner
  \<^verbatim>\<open>if (pipe[2] == id_idx) { pipe[1] = pipe[2]; pipe[2] = -1; }\<close>, and
  \<open>revert_needed\<close> says that this body is reached: \<open>req > 0\<close> and the condition holds.
\<close>

definition revert_move :: "SimState \<Rightarrow> SimState" where
  "revert_move s = s\<lparr>pipe := (pipe s)[1 := pipe s ! 2, 2 := -1]\<rparr>"

definition revert_needed :: "Instr list \<Rightarrow> SimState \<Rightarrow> bool" where
  "revert_needed prog s =
     (needed_stalls_for_id (pipe s ! 1) (pipe s ! 2) (pipe s ! 3) prog > 0
      \<and> pipe s ! 2 = pipe s ! 1)"

definition hazard_check :: "Instr list \<Rightarrow> SimState \<Rightarrow> SimState" where
  "hazard_check prog s =
     (let id_idx = pipe s ! 1;
          ex_idx = pipe s ! 2;
          mem_idx = pipe s ! 3;
          req = needed_stalls_for_id id_idx ex_idx mem_idx prog
      in if req > 0
         then (let s1 = (if pipe s ! 2 = id_idx then revert_move s else s)
               in s1\<lparr>stall_counter := req\<rparr>)
         else s)"

text \<open>One iteration of \<^verbatim>\<open>while (completed < n)\<close>.\<close>

definition step :: "Instr list \<Rightarrow> SimState \<Rightarrow> SimState" where
  "step prog s =
     (let s1 = s\<lparr>cycle := cycle s + 1\<rparr>;
          s2 = write_back s1
      in if stall_counter s2 > 0
         then stall_cycle s2
         else hazard_check prog (advance (int (length prog)) s2))"

text \<open>
  The loop. It need not return from an arbitrary state (an empty pipeline with nothing left
  to fetch and \<open>completed < n\<close> repeats forever), so it is a partial function: \<open>None\<close>
  stands for a loop that never exits.
\<close>

partial_function (option) sim_loop :: "Instr list \<Rightarrow> SimState \<Rightarrow> SimState option" where
  "sim_loop prog s =
     (if completed s < int (length prog) then sim_loop prog (step prog s) else Some s)"

declare sim_loop.simps [code]

text \<open>
  \<^verbatim>\<open>main\<close> of either program returns early with exit code 4 when no instruction was
  parsed; otherwise the simulator prints the final \<^verbatim>\<open>cycle\<close> and \<^verbatim>\<open>total_stalls\<close>,
  the calculator \<^verbatim>\<open>total_cycles\<close> and \<^verbatim>\<open>sum_stalls\<close>.
\<close>

datatype error = NoInstructions

definition simulator_main :: "Instr list \<Rightarrow> (error + int \<times> int) option" where
  "simulator_main prog =
     (if prog = [] then Some (Inl NoInstructions)
      else map_option (\<lambda>s. Inr (cycle s, total_stalls s)) (sim_loop prog init_state))"

definition timeline_main :: "Instr list \<Rightarrow> error + int \<times> int" where
  "timeline_main prog =
     (if prog = [] then Inl NoInstructions else Inr (total_cycles prog, sum_stalls prog))"

subsection \<open>Reachable states and the pipeline invariant\<close>

text \<open>The states the loop passes through: the initial one, and the one after each iteration
  entered with \<open>completed < n\<close>.\<close>

inductive reachable :: "Instr list \<Rightarrow> SimState \<Rightarrow> bool" for prog :: "Instr list" where
  start: "reachable prog init_state"
| cycle: "reachable prog s \<Longrightarrow> completed s < int (length prog) \<Longrightarrow> reachable prog (step prog s)"

text \<open>Instruction \<open>x\<close> occupies slot \<open>k\<close> (0 = IF, 1 = ID, 2 = EX, 3 = MEM, 4 = WB).\<close>

definition in_slot :: "SimState \<Rightarrow> nat \<Rightarrow> int \<Rightarrow> bool" where
  "in_slot s k x = (k < 5 \<and> 0 \<le> x \<and> pipe s ! k = x)"

definition in_flight :: "SimState \<Rightarrow> int \<Rightarrow> bool" where
  "in_flight s x = (\<exists>k \<in> {0, 1, 2, 3, 4}. in_slot s k x)"

text \<open>The revert branch is executed by the iteration that starts in state \<open>s\<close>.\<close>

definition revert_executes :: "Instr list \<Rightarrow> SimState \<Rightarrow> bool" where
  "revert_executes prog s =
     (let s2 = write_back (s\<lparr>cycle := cycle s + 1\<rparr>)
      in \<not> stall_counter s2 > 0 \<and> revert_needed prog (advance (int (length prog)) s2))"

text \<open>1 for an occupied slot, 0 for a bubble.\<close>

definition occ :: "int \<Rightarrow> int" where
  "occ x = (if 0 \<le> x then 1 else 0)"

text \<open>Every slot holds an index or exactly the bubble marker \<open>-1\<close>.\<close>

definition slots_ok :: "SimState \<Rightarrow> bool" where
  "slots_ok s = (length (pipe s) = 5 \<and> list_all (\<lambda>x. - 1 \<le> x) (pipe s))"

text \<open>
  The invariant of the loop: the instructions in flight are exactly those fetched and not
  yet retired, \<open>completed \<le> x < pc\<close>, each in one slot, younger instructions in earlier
  slots. Written slot by slot: an occupied slot holds \<open>pc - 1\<close> minus the number of
  occupied slots before it.
\<close>

definition pipe_inv :: "int \<Rightarrow> SimState \<Rightarrow> bool" where
  "pipe_inv n s =
     (slots_ok s \<and>
      (let a = pipe s ! 0; b = pipe s ! 1; c = pipe s ! 2; d = pipe s ! 3; e = pipe s ! 4
       in (0 \<le> a \<longrightarrow> a = pc s - 1) \<and>
          (0 \<le> b \<longrightarrow> b = pc s - 1 - occ a) \<and>
          (0 \<le> c \<longrightarrow> c = pc s - 1 - occ a - occ b) \<and>
          (0 \<le> d \<longrightarrow> d = pc s - 1 - occ a - occ b - occ c) \<and>
          (0 \<le> e \<longrightarrow> e = pc s - 1 - occ a - occ b - occ c - occ d) \<and>
          completed s = pc s - occ a - occ b - occ c - occ d - occ e) \<and>
      0 \<le> completed s \<and> pc s \<le> n \<and> 0 \<le> stall_counter s \<and> stall_counter s \<le> 2)"

text \<open>The work left: it decreases with every iteration of the loop (see \<open>work_decreases\<close>).\<close>

definition work :: "int \<Rightarrow> SimState \<Rightarrow> nat" where
  "work n s =
     nat (stall_counter s + 7 * occ (pipe s ! 0) + 4 * occ (pipe s ! 1) + 3 * occ (pipe s ! 2)
          + 2 * occ (pipe s ! 3) + occ (pipe s ! 4) + 8 * (n - pc s))"

subsection \<open>Further invariants and the simulator's stalls in closed form\<close>

text \<open>While bubbles are being inserted, the stalled instruction is in ID.\<close>

definition stalled_in_id :: "SimState \<Rightarrow> bool" where
  "stalled_in_id s = (0 < stall_counter s \<longrightarrow> 0 \<le> pipe s ! 1)"

text \<open>
  The cycle counter against the program counter: while instructions remain to be fetched,
  every cycle so far fetched one or inserted a bubble; afterwards the last instruction,
  \<open>n - 1\<close>, has moved \<open>k\<close> slots on, and the loop ends one iteration after it has
  reached the WB slot.
\<close>

definition cycle_inv :: "int \<Rightarrow> SimState \<Rightarrow> bool" where
  "cycle_inv n s =
     ((pc s < n \<longrightarrow> cycle s = pc s + total_stalls s) \<and>
      (\<forall>k \<in> {0, 1, 2, 3, 4}. in_slot s k (n - 1) \<longrightarrow> cycle s = n + total_stalls s + int k) \<and>
      (completed s = n \<longrightarrow> cycle s = n + total_stalls s + 5))"

text \<open>
  The hypothesis of the base case: no instruction reads the destination of one of the two
  instructions before it.
\<close>

definition hazard_free :: "Instr list \<Rightarrow> bool" where
  "hazard_free prog =
     list_all (\<lambda>i. (1 \<le> i \<longrightarrow> rd (prog ! (i - 1)) \<notin> set (sources (prog ! i))) \<and>
                   (2 \<le> i \<longrightarrow> rd (prog ! (i - 2)) \<notin> set (sources (prog ! i))))
       [0..<length prog]"

text \<open>
  The stalls the simulator inserts before instruction \<open>i\<close> (see \<open>simulator_totals\<close>):
  the oracle applied to \<open>i\<close>, to \<open>i - 1\<close> in EX and, in MEM, to \<open>i - 2\<close> when
  instruction \<open>i - 1\<close> was itself not stalled, else to a bubble.
\<close>

fun sim_stall :: "Instr list \<Rightarrow> nat \<Rightarrow> int" where
  "sim_stall prog 0 = needed_stalls_for_id 0 (- 1) (- 1) prog"
| "sim_stall prog (Suc i) =
     needed_stalls_for_id (int (Suc i)) (int i)
       (if 0 < i \<and> sim_stall prog i = 0 then int i - 1 else - 1) prog"

definition sim_stall_total :: "Instr list \<Rightarrow> int" where
  "sim_stall_total prog = sum (sim_stall prog) {..<length prog}"

text \<open>
  The invariant behind it: IF holds the last fetched instruction while instructions remain,
  ID the one before IF's, EX the one before ID's exactly when ID's occupant needs no
  stall, and the bubbles inserted or still pending are the stalls of the instructions
  that have entered ID.
\<close>

definition stall_inv :: "Instr list \<Rightarrow> SimState \<Rightarrow> bool" where
  "stall_inv prog s =
     ((0 < pc s \<and> pc s < int (length prog) \<longrightarrow> 0 \<le> pipe s ! 0) \<and>
      (0 < pipe s ! 0 \<longrightarrow> pipe s ! 1 = pipe s ! 0 - 1) \<and>
      (0 \<le> pipe s ! 1 \<and> sim_stall prog (nat (pipe s ! 1)) = 0 \<longrightarrow>
         stall_counter s = 0 \<and> pipe s ! 2 = pipe s ! 1 - 1) \<and>
      (0 \<le> pipe s ! 1 \<and> sim_stall prog (nat (pipe s ! 1)) \<noteq> 0 \<and> stall_counter s = 0 \<longrightarrow>
         pipe s ! 2 = - 1) \<and>
      total_stalls s + stall_counter s =
        sum (sim_stall prog) {..<nat (pc s - occ (pipe s ! 0))})"

subsection \<open>Example programs\<close>

text \<open>Scenarios A and B of the specification, and a program in which an instruction that
  was stalled is followed by one that reads the destination written two instructions back.\<close>

definition scenario_A :: "Instr list" where
  "scenario_A = [instr_add ''x1'' ''x2'' ''x3'', instr_add ''x4'' ''x5'' ''x6'',
                 instr_add ''x7'' ''x8'' ''x9'']"

definition scenario_B :: "Instr list" where
  "scenario_B = [instr_add ''x1'' ''x2'' ''x3'', instr_sub ''x4'' ''x1'' ''x5'']"

definition stalled_then_second_order :: "Instr list" where
  "stalled_then_second_order =
     [instr_add ''x1'' ''x2'' ''x3'', instr_sub ''x4'' ''x1'' ''x5'',
      instr_add ''x6'' ''x1'' ''x7'']"

section \<open>The hazard oracle\<close>

lemma reg_in_sources_from_iff:
  "reg_in_sources_from i reg ins \<longleftrightarrow> (\<exists>j. i \<le> j \<and> j < rs_count ins \<and> rs ins ! j = reg)"
proof (induction i reg ins rule: reg_in_sources_from.induct)
  case (1 i reg ins)
  show ?case
  proof (cases "i < rs_count ins")
    case False
    then show ?thesis by (simp add: reg_in_sources_from.simps [of i])
  next
    case True
    show ?thesis
    proof (cases "reg = rs ins ! i")
      case True
      with \<open>i < rs_count ins\<close> show ?thesis
        by (auto simp: reg_in_sources_from.simps [of i])
    next
      case False
      have "(\<exists>j. i \<le> j \<and> j < rs_count ins \<and> rs ins ! j = reg)
            \<longleftrightarrow> (\<exists>j. i + 1 \<le> j \<and> j < rs_count ins \<and> rs ins ! j = reg)"
        using False by (metis Suc_eq_plus1 Suc_leI le_neq_implies_less nat_le_linear not_less_eq_eq)
      with 1 True False show ?thesis
        by (simp add: reg_in_sources_from.simps [of i])
    qed
  qed
qed

lemma reg_in_sources_iff:
  assumes "rs_count ins \<le> length (rs ins)"
  shows "reg_in_sources reg ins \<longleftrightarrow> reg \<in> set (sources ins)"
proof -
  have "reg \<in> set (take (rs_count ins) (rs ins))
        \<longleftrightarrow> (\<exists>j < rs_count ins. rs ins ! j = reg)"
    using assms by (auto simp: in_set_conv_nth)
  then show ?thesis
    by (auto simp: reg_in_sources_def reg_in_sources_from_iff sources_def)
qed

lemma needed_stalls_pos_id: "0 < needed_stalls_for_id i e m prog \<Longrightarrow> 0 \<le> i"
  by (simp add: needed_stalls_for_id_def split: if_splits)

text \<open>
  Claim C3. For a consumer that exists (its slot holds an index; in the timeline calculator
  it is the current instruction) the oracle answers 2 when the first producer exists and
  writes one of the consumer's sources, else 1 when the second producer exists and writes
  one of them, else 0. A producer "exists" when its slot index is not negative
  (simulator), respectively when its remembered destination is not the empty string
  (timeline calculator). When both producers are read, the answer is 2: the two stalls are
  not added. Both oracles are HOL functions, so equal inputs give equal outputs.
\<close>

theorem hazard_oracle_priority:
  assumes "0 \<le> id_idx"
    and "consumer = prog ! nat id_idx"
    and "rs_count consumer \<le> length (rs consumer)"
  shows "needed_stalls_for_id id_idx ex_idx mem_idx prog =
           (if 0 \<le> ex_idx \<and> rd (prog ! nat ex_idx) \<in> set (sources consumer) then 2
            else if 0 \<le> mem_idx \<and> rd (prog ! nat mem_idx) \<in> set (sources consumer) then 1
            else 0)
       \<and> stall_for d1 d2 consumer =
           (if d1 \<noteq> [] \<and> d1 \<in> set (sources consumer) then 2
            else if d2 \<noteq> [] \<and> d2 \<in> set (sources consumer) then 1
            else 0)
       \<and> (0 \<le> ex_idx \<and> rd (prog ! nat ex_idx) \<in> set (sources consumer) \<and>
           0 \<le> mem_idx \<and> rd (prog ! nat mem_idx) \<in> set (sources consumer)
           \<longrightarrow> needed_stalls_for_id id_idx ex_idx mem_idx prog = 2)
       \<and> (d1 \<noteq> [] \<and> d1 \<in> set (sources consumer) \<and> d2 \<noteq> [] \<and> d2 \<in> set (sources consumer)
           \<longrightarrow> stall_for d1 d2 consumer = 2)"
  using assms
  by (simp add: needed_stalls_for_id_def stall_for_def reg_in_sources_iff)

theorem hazard_oracle_priority_witness:
  "(0::int) \<le> 2
   \<and> rs_count (instr_add ''x6'' ''x1'' ''x4'') \<le> length (rs (instr_add ''x6'' ''x1'' ''x4''))
   \<and> needed_stalls_for_id 2 1 0
        [instr_add ''x1'' ''x2'' ''x3'', instr_sub ''x4'' ''x1'' ''x5'',
         instr_add ''x6'' ''x1'' ''x4''] = 2
   \<and> stall_for ''x4'' ''x1'' (instr_add ''x6'' ''x1'' ''x4'') = 2
   \<and> stall_for ''x9'' ''x1'' (instr_add ''x6'' ''x1'' ''x4'') = 1
   \<and> stall_for ''x9'' ''x8'' (instr_add ''x6'' ''x1'' ''x4'') = 0"
  using hazard_oracle_priority [of 2 "instr_add ''x6'' ''x1'' ''x4''"
      "[instr_add ''x1'' ''x2'' ''x3'', instr_sub ''x4'' ''x1'' ''x5'',
        instr_add ''x6'' ''x1'' ''x4'']" 1 0 "''x4''" "''x1''"]
    hazard_oracle_priority [of 2 "instr_add ''x6'' ''x1'' ''x4''"
      "[instr_add ''x1'' ''x2'' ''x3'', instr_sub ''x4'' ''x1'' ''x5'',
        instr_add ''x6'' ''x1'' ''x4'']" 1 0 "''x9''" "''x1''"]
    hazard_oracle_priority [of 2 "instr_add ''x6'' ''x1'' ''x4''"
      "[instr_add ''x1'' ''x2'' ''x3'', instr_sub ''x4'' ''x1'' ''x5'',
        instr_add ''x6'' ''x1'' ''x4'']" 1 0 "''x9''" "''x8''"]
  by (simp add: instr_add_def instr_sub_def sources_def)

section \<open>The timeline calculator\<close>

lemma stalls_loop_length: "length (stalls_loop d1 d2 prog) = length prog"
  by (induction prog arbitrary: d1 d2) simp_all

lemma stall_for_range: "stall_for d1 d2 ins \<in> {0, 1, 2}"
  by (simp add: stall_for_def)

lemma stalls_loop_range: "i < length prog \<Longrightarrow> stalls_loop d1 d2 prog ! i \<in> {0, 1, 2}"
proof (induction prog arbitrary: d1 d2 i)
  case Nil then show ?case by simp
next
  case (Cons ins rest)
  then show ?case using stall_for_range [of d1 d2 ins] by (cases i) auto
qed

lemma stalls_first: "prog \<noteq> [] \<Longrightarrow> stalls prog ! 0 = 0"
  by (cases prog) (simp_all add: stalls_def stall_for_def)

lemma timeline_loop_length: "length (timeline_loop c ss) = length ss"
  by (induction ss arbitrary: c) (simp_all add: Let_def)

lemma timeline_loop_stages:
  "i < length ss \<Longrightarrow>
     IDc (timeline_loop c ss ! i) = IFc (timeline_loop c ss ! i) + 1 \<and>
     EXc (timeline_loop c ss ! i) = IFc (timeline_loop c ss ! i) + 2 \<and>
     MEMc (timeline_loop c ss ! i) = IFc (timeline_loop c ss ! i) + 3 \<and>
     WBc (timeline_loop c ss ! i) = IFc (timeline_loop c ss ! i) + 4"
proof (induction ss arbitrary: c i)
  case Nil then show ?case by simp
next
  case (Cons s ss)
  then show ?case by (cases i) (simp_all add: Let_def)
qed

lemma timeline_loop_first: "ss \<noteq> [] \<Longrightarrow> IFc (timeline_loop c ss ! 0) = c + ss ! 0"
  by (cases ss) (simp_all add: Let_def)

lemma timeline_loop_next:
  "Suc i < length ss \<Longrightarrow>
     IFc (timeline_loop c ss ! Suc i) = IFc (timeline_loop c ss ! i) + 1 + ss ! Suc i"
proof (induction ss arbitrary: c i)
  case Nil then show ?case by simp
next
  case (Cons s ss)
  show ?case
  proof (cases i)
    case 0
    with Cons.prems show ?thesis
      using timeline_loop_first [of ss "c + s + 1"] by (auto simp: Let_def)
  next
    case (Suc k)
    with Cons show ?thesis by (simp add: Let_def)
  qed
qed

lemma timeline_IF_sum:
  "i < length ss \<Longrightarrow> IFc (timeline_loop c ss ! i) = c + int i + sum_list (take (Suc i) ss)"
proof (induction ss arbitrary: c i)
  case Nil then show ?case by simp
next
  case (Cons s ss)
  then show ?case by (cases i) (simp_all add: Let_def)
qed

text \<open>
  Claim C4. For a program of at least one instruction the schedule starts at
  \<open>IF[0] = 1\<close>, every later instruction is fetched \<open>1 + stallsBefore[i]\<close> cycles
  after its predecessor, the four later stages follow the fetch one cycle apart, and every
  \<open>stallsBefore[i]\<close> is 0, 1 or 2. (The cycle numbers are C \<^verbatim>\<open>int\<close>s; with at most
  \<^verbatim>\<open>MAX_INSTR = 4096\<close> instructions they stay below \<open>3 * 4096 + 5\<close>, so they are
  modelled as unbounded integers.)
\<close>

theorem timeline_schedule:
  assumes "prog \<noteq> []"
  shows "length (timeline prog) = length prog \<and> length (stalls prog) = length prog
       \<and> IFc (timeline prog ! 0) = 1
       \<and> (\<forall>i. 0 < i \<and> i < length prog \<longrightarrow>
             IFc (timeline prog ! i) = IFc (timeline prog ! (i - 1)) + 1 + stalls prog ! i)
       \<and> (\<forall>i < length prog.
             IDc (timeline prog ! i) = IFc (timeline prog ! i) + 1 \<and>
             EXc (timeline prog ! i) = IFc (timeline prog ! i) + 2 \<and>
             MEMc (timeline prog ! i) = IFc (timeline prog ! i) + 3 \<and>
             WBc (timeline prog ! i) = IFc (timeline prog ! i) + 4 \<and>
             stalls prog ! i \<in> {0, 1, 2})"
proof -
  have len: "length (stalls prog) = length prog"
    by (simp add: stalls_def stalls_loop_length)
  have ne: "stalls prog \<noteq> []"
    using assms len by auto
  have first: "IFc (timeline prog ! 0) = 1"
    using assms timeline_loop_first [OF ne, of 1] stalls_first [of prog]
    by (simp add: timeline_def)
  have nxt: "IFc (timeline prog ! i) = IFc (timeline prog ! (i - 1)) + 1 + stalls prog ! i"
    if "0 < i" "i < length prog" for i
  proof -
    from that obtain k where k: "i = Suc k" by (cases i) auto
    with that len show ?thesis
      using timeline_loop_next [of k "stalls prog" 1] by (simp add: timeline_def)
  qed
  have stages: "IDc (timeline prog ! i) = IFc (timeline prog ! i) + 1 \<and>
             EXc (timeline prog ! i) = IFc (timeline prog ! i) + 2 \<and>
             MEMc (timeline prog ! i) = IFc (timeline prog ! i) + 3 \<and>
             WBc (timeline prog ! i) = IFc (timeline prog ! i) + 4 \<and>
             stalls prog ! i \<in> {0, 1, 2}" if "i < length prog" for i
    using that len timeline_loop_stages [of i "stalls prog" 1]
      stalls_loop_range [of i prog "[]" "[]"]
    by (simp add: timeline_def stalls_def)
  show ?thesis
    using len first nxt stages by (simp add: timeline_def timeline_loop_length)
qed

theorem timeline_schedule_witness:
  "[instr_add ''x1'' ''x2'' ''x3'', instr_sub ''x4'' ''x1'' ''x5''] \<noteq> []
   \<and> IFc (timeline [instr_add ''x1'' ''x2'' ''x3'', instr_sub ''x4'' ''x1'' ''x5''] ! 0) = 1
   \<and> IFc (timeline [instr_add ''x1'' ''x2'' ''x3'', instr_sub ''x4'' ''x1'' ''x5''] ! 1)
       = IFc (timeline [instr_add ''x1'' ''x2'' ''x3'', instr_sub ''x4'' ''x1'' ''x5''] ! 0) + 1
         + stalls [instr_add ''x1'' ''x2'' ''x3'', instr_sub ''x4'' ''x1'' ''x5''] ! 1
   \<and> WBc (timeline [instr_add ''x1'' ''x2'' ''x3'', instr_sub ''x4'' ''x1'' ''x5''] ! 1)
       = IFc (timeline [instr_add ''x1'' ''x2'' ''x3'', instr_sub ''x4'' ''x1'' ''x5''] ! 1) + 4
   \<and> stalls [instr_add ''x1'' ''x2'' ''x3'', instr_sub ''x4'' ''x1'' ''x5''] ! 1 = 2"
  using timeline_schedule [of "[instr_add ''x1'' ''x2'' ''x3'', instr_sub ''x4'' ''x1'' ''x5'']"]
  by (simp add: stalls_def stall_for_def reg_in_sources_def reg_in_sources_from.simps
      instr_add_def instr_sub_def)

section \<open>The cycle simulator\<close>

subsection \<open>One iteration in closed form\<close>

lemma length5E:
  assumes "length xs = 5"
  obtains a b c d e where "xs = [a, b, c, d, e]"
  using assms by (auto simp: length_Suc_conv eval_nat_numeral)

lemma slots_okE:
  assumes "slots_ok s"
  obtains a b c d e where "pipe s = [a, b, c, d, e]"
    "- 1 \<le> a" "- 1 \<le> b" "- 1 \<le> c" "- 1 \<le> d" "- 1 \<le> e"
proof -
  from assms have "length (pipe s) = 5" by (simp add: slots_ok_def)
  then obtain a b c d e where p: "pipe s = [a, b, c, d, e]" by (rule length5E)
  with assms that show ?thesis by (simp add: slots_ok_def)
qed



lemma write_back_shape:
  assumes "pipe s = [a, b, c, d, e]" "- 1 \<le> e"
  shows "write_back s = s\<lparr>pipe := [a, b, c, d, - 1], completed := completed s + occ e\<rparr>"
  using assms by (cases s) (auto simp: write_back_def occ_def)

lemma move_slot_34:
  assumes "pipe s = [a, b, c, d, - 1]" "- 1 \<le> d"
  shows "move_slot 3 4 s = s\<lparr>pipe := [a, b, c, - 1, d]\<rparr>"
  using assms by (cases s) (auto simp: move_slot_def)

lemma move_slot_23:
  assumes "pipe s = [a, b, c, - 1, d]" "- 1 \<le> c"
  shows "move_slot 2 3 s = s\<lparr>pipe := [a, b, - 1, c, d]\<rparr>"
  using assms by (cases s) (auto simp: move_slot_def)

lemma move_slot_12:
  assumes "pipe s = [a, b, - 1, c, d]" "- 1 \<le> b"
  shows "move_slot 1 2 s = s\<lparr>pipe := [a, - 1, b, c, d]\<rparr>"
  using assms by (cases s) (auto simp: move_slot_def)

lemma move_slot_01:
  assumes "pipe s = [a, - 1, b, c, d]" "- 1 \<le> a"
  shows "move_slot 0 1 s = s\<lparr>pipe := [- 1, a, b, c, d]\<rparr>"
  using assms by (cases s) (auto simp: move_slot_def)

lemma stall_cycle_shape:
  assumes "pipe s = [a, b, c, d, - 1]" "- 1 \<le> c" "- 1 \<le> d"
  shows "stall_cycle s = s\<lparr>pipe := [a, b, - 1, c, d], total_stalls := total_stalls s + 1,
            stall_counter := stall_counter s - 1\<rparr>"
proof -
  have 1: "move_slot 3 4 s = s\<lparr>pipe := [a, b, c, - 1, d]\<rparr>"
    using assms by (intro move_slot_34) simp_all
  have 2: "move_slot 2 3 (s\<lparr>pipe := [a, b, c, - 1, d]\<rparr>) = s\<lparr>pipe := [a, b, - 1, c, d]\<rparr>"
    using assms move_slot_23 [of "s\<lparr>pipe := [a, b, c, - 1, d]\<rparr>" a b c d] by simp
  show ?thesis by (simp add: stall_cycle_def 1 2)
qed

lemma advance_shape:
  assumes "pipe s = [a, b, c, d, - 1]" "- 1 \<le> a" "- 1 \<le> b" "- 1 \<le> c" "- 1 \<le> d"
  shows "advance n s = s\<lparr>pipe := [if pc s < n then pc s else - 1, a, b, c, d],
            pc := (if pc s < n then pc s + 1 else pc s)\<rparr>"
proof -
  have 1: "move_slot 3 4 s = s\<lparr>pipe := [a, b, c, - 1, d]\<rparr>"
    using assms by (intro move_slot_34) simp_all
  have 2: "move_slot 2 3 (s\<lparr>pipe := [a, b, c, - 1, d]\<rparr>) = s\<lparr>pipe := [a, b, - 1, c, d]\<rparr>"
    using assms move_slot_23 [of "s\<lparr>pipe := [a, b, c, - 1, d]\<rparr>" a b c d] by simp
  have 3: "move_slot 1 2 (s\<lparr>pipe := [a, b, - 1, c, d]\<rparr>) = s\<lparr>pipe := [a, - 1, b, c, d]\<rparr>"
    using assms move_slot_12 [of "s\<lparr>pipe := [a, b, - 1, c, d]\<rparr>" a b c d] by simp
  have 4: "move_slot 0 1 (s\<lparr>pipe := [a, - 1, b, c, d]\<rparr>) = s\<lparr>pipe := [- 1, a, b, c, d]\<rparr>"
    using assms move_slot_01 [of "s\<lparr>pipe := [a, - 1, b, c, d]\<rparr>" a b c d] by simp
  show ?thesis unfolding advance_def Let_def 1 2 3 4 by (simp add: fetch_def)
qed

lemma hazard_check_shape:
  assumes "pipe s = [f, a, b, c, d]" "0 \<le> a \<longrightarrow> b \<noteq> a"
  shows "hazard_check prog s =
           s\<lparr>stall_counter := (if 0 < needed_stalls_for_id a b c prog
                               then needed_stalls_for_id a b c prog else stall_counter s)\<rparr>"
  using assms needed_stalls_pos_id [of a b c prog]
  by (cases s) (auto simp: hazard_check_def revert_move_def Let_def)

lemma step_stall_shape:
  assumes "pipe s = [a, b, c, d, e]" "- 1 \<le> c" "- 1 \<le> d" "- 1 \<le> e" "0 < stall_counter s"
  shows "step prog s = \<lparr>pipe = [a, b, - 1, c, d], pc = pc s, completed = completed s + occ e,
            total_stalls = total_stalls s + 1, cycle = cycle s + 1,
            stall_counter = stall_counter s - 1\<rparr>"
proof -
  let ?s1 = "s\<lparr>cycle := cycle s + 1\<rparr>"
  let ?s2 = "?s1\<lparr>pipe := [a, b, c, d, - 1], completed := completed s + occ e\<rparr>"
  have wb: "write_back ?s1 = ?s2"
    using assms write_back_shape [of ?s1 a b c d e] by simp
  have "stall_cycle ?s2 =
        ?s2\<lparr>pipe := [a, b, - 1, c, d], total_stalls := total_stalls ?s2 + 1,
           stall_counter := stall_counter ?s2 - 1\<rparr>"
    by (rule stall_cycle_shape) (use assms in simp_all)
  with assms wb show ?thesis by (cases s) (simp add: step_def Let_def)
qed

lemma step_advance_shape:
  assumes "pipe s = [a, b, c, d, e]" "- 1 \<le> a" "- 1 \<le> b" "- 1 \<le> c" "- 1 \<le> d" "- 1 \<le> e"
    "\<not> 0 < stall_counter s" "0 \<le> a \<longrightarrow> b \<noteq> a"
  shows "step prog s =
           \<lparr>pipe = [if pc s < int (length prog) then pc s else - 1, a, b, c, d],
            pc = (if pc s < int (length prog) then pc s + 1 else pc s),
            completed = completed s + occ e,
            total_stalls = total_stalls s, cycle = cycle s + 1,
            stall_counter = (if 0 < needed_stalls_for_id a b c prog
                             then needed_stalls_for_id a b c prog else stall_counter s)\<rparr>"
proof -
  let ?n = "int (length prog)"
  let ?s1 = "s\<lparr>cycle := cycle s + 1\<rparr>"
  let ?s2 = "?s1\<lparr>pipe := [a, b, c, d, - 1], completed := completed s + occ e\<rparr>"
  let ?s3 = "?s2\<lparr>pipe := [if pc s < ?n then pc s else - 1, a, b, c, d],
            pc := (if pc s < ?n then pc s + 1 else pc s)\<rparr>"
  have wb: "write_back ?s1 = ?s2"
    using assms write_back_shape [of ?s1 a b c d e] by simp
  have adv: "advance ?n ?s2 = ?s3"
    using assms advance_shape [of ?s2 a b c d ?n] by simp
  have hz: "hazard_check prog ?s3 =
           ?s3\<lparr>stall_counter := (if 0 < needed_stalls_for_id a b c prog
                               then needed_stalls_for_id a b c prog else stall_counter ?s3)\<rparr>"
    by (rule hazard_check_shape) (use assms in simp_all)
  have "step prog s = ?s3\<lparr>stall_counter := (if 0 < needed_stalls_for_id a b c prog
                               then needed_stalls_for_id a b c prog else stall_counter ?s3)\<rparr>"
    unfolding step_def Let_def wb adv hz using assms(7) by simp
  then show ?thesis by (cases s) simp
qed

lemma pipe_inv_init: "0 \<le> n \<Longrightarrow> pipe_inv n init_state"
  by (simp add: pipe_inv_def slots_ok_def init_state_def occ_def)

lemma needed_stalls_bounds:
  "0 \<le> needed_stalls_for_id i e m prog" "needed_stalls_for_id i e m prog \<le> 2"
  by (simp_all add: needed_stalls_for_id_def)

lemma occ_bounds: "0 \<le> occ x" "occ x \<le> 1"
  by (simp_all add: occ_def)

lemma occ_bubble [simp]: "occ (- 1) = 0"
  by (simp add: occ_def)

lemma occ_index: "0 \<le> x \<Longrightarrow> occ x = 1"
  by (simp add: occ_def)

lemma pipe_inv_pc_nonneg:
  assumes "pipe_inv n s"
  shows "0 \<le> pc s"
proof -
  from assms have "completed s = pc s - occ (pipe s ! 0) - occ (pipe s ! 1) - occ (pipe s ! 2)
      - occ (pipe s ! 3) - occ (pipe s ! 4)" "0 \<le> completed s"
    by (simp_all add: pipe_inv_def Let_def)
  then show ?thesis
    using occ_bounds(1) [of "pipe s ! 0"] occ_bounds(1) [of "pipe s ! 1"]
      occ_bounds(1) [of "pipe s ! 2"] occ_bounds(1) [of "pipe s ! 3"]
      occ_bounds(1) [of "pipe s ! 4"]
    by linarith
qed

lemma pipe_inv_no_revert:
  assumes "pipe_inv n s" "0 \<le> pipe s ! 0"
  shows "pipe s ! 1 \<noteq> pipe s ! 0"
  using assms by (auto simp: pipe_inv_def Let_def occ_def)

lemma pipe_inv_step:
  assumes "pipe_inv (int (length prog)) s"
  shows "pipe_inv (int (length prog)) (step prog s)"
proof -
  from assms have ok: "slots_ok s" by (simp add: pipe_inv_def)
  then obtain a b c d e where p: "pipe s = [a, b, c, d, e]"
    and bd: "- 1 \<le> a" "- 1 \<le> b" "- 1 \<le> c" "- 1 \<le> d" "- 1 \<le> e"
    by (rule slots_okE)
  have pc0: "0 \<le> pc s" using assms by (rule pipe_inv_pc_nonneg)
  show ?thesis
  proof (cases "0 < stall_counter s")
    case True
    with p bd have "step prog s = \<lparr>pipe = [a, b, - 1, c, d], pc = pc s, completed = completed s + occ e,
            total_stalls = total_stalls s + 1, cycle = cycle s + 1,
            stall_counter = stall_counter s - 1\<rparr>"
      by (intro step_stall_shape) simp_all
    with assms p bd True show ?thesis
      using occ_bounds [of e] by (simp add: pipe_inv_def slots_ok_def)
  next
    case False
    from assms p have nr: "0 \<le> a \<longrightarrow> b \<noteq> a"
      using pipe_inv_no_revert [of "int (length prog)" s] by simp
    define r where "r = needed_stalls_for_id a b c prog"
    have r: "0 \<le> r" "r \<le> 2"
      by (simp_all add: r_def needed_stalls_bounds)
    from p bd False nr have st: "step prog s =
           \<lparr>pipe = [if pc s < int (length prog) then pc s else - 1, a, b, c, d],
            pc = (if pc s < int (length prog) then pc s + 1 else pc s),
            completed = completed s + occ e,
            total_stalls = total_stalls s, cycle = cycle s + 1,
            stall_counter = (if 0 < r then r else stall_counter s)\<rparr>"
      unfolding r_def by (intro step_advance_shape) simp_all
    show ?thesis
      using assms p bd False r pc0 occ_bounds [of e] unfolding st
      by (simp add: pipe_inv_def slots_ok_def occ_index)
  qed
qed

lemma reachable_inv: "reachable prog s \<Longrightarrow> pipe_inv (int (length prog)) s"
  by (induction rule: reachable.induct) (simp_all add: pipe_inv_init pipe_inv_step)

lemma work_decreases:
  assumes "pipe_inv (int (length prog)) s" "completed s < int (length prog)"
  shows "work (int (length prog)) (step prog s) < work (int (length prog)) s"
proof -
  from assms have ok: "slots_ok s" by (simp add: pipe_inv_def)
  then obtain a b c d e where p: "pipe s = [a, b, c, d, e]"
    and bd: "- 1 \<le> a" "- 1 \<le> b" "- 1 \<le> c" "- 1 \<le> d" "- 1 \<le> e"
    by (rule slots_okE)
  have pc0: "0 \<le> pc s" using assms(1) by (rule pipe_inv_pc_nonneg)
  from assms p have cnt: "completed s = pc s - occ a - occ b - occ c - occ d - occ e"
    and pcn: "pc s \<le> int (length prog)" and sc: "0 \<le> stall_counter s"
    by (simp_all add: pipe_inv_def Let_def)
  note ob = occ_bounds [of a] occ_bounds [of b] occ_bounds [of c] occ_bounds [of d] occ_bounds [of e]
  show ?thesis
  proof (cases "0 < stall_counter s")
    case True
    with p bd have st: "step prog s = \<lparr>pipe = [a, b, - 1, c, d], pc = pc s, completed = completed s + occ e,
            total_stalls = total_stalls s + 1, cycle = cycle s + 1,
            stall_counter = stall_counter s - 1\<rparr>"
      by (intro step_stall_shape) simp_all
    show ?thesis
      using p True pcn ob unfolding st work_def by simp
  next
    case False
    from assms p have nr: "0 \<le> a \<longrightarrow> b \<noteq> a"
      using pipe_inv_no_revert [of "int (length prog)" s] by simp
    define r where "r = needed_stalls_for_id a b c prog"
    have r: "0 \<le> r" "r \<le> 2"
      by (simp_all add: r_def needed_stalls_bounds)
    have ra: "0 < r \<Longrightarrow> occ a = 1"
      using needed_stalls_pos_id [of a b c prog] by (simp add: r_def occ_index)
    from p bd False nr have st: "step prog s =
           \<lparr>pipe = [if pc s < int (length prog) then pc s else - 1, a, b, c, d],
            pc = (if pc s < int (length prog) then pc s + 1 else pc s),
            completed = completed s + occ e,
            total_stalls = total_stalls s, cycle = cycle s + 1,
            stall_counter = (if 0 < r then r else stall_counter s)\<rparr>"
      unfolding r_def by (intro step_advance_shape) simp_all
    from False sc have sc0: "stall_counter s = 0" by simp
    show ?thesis
    proof (cases "pc s < int (length prog)")
      case True
      then show ?thesis
        using p sc0 r ra ob pc0 unfolding st work_def
        by (cases "0 < r") (simp_all add: occ_index)
    next
      case False
      with pcn have "pc s = int (length prog)" by simp
      with False show ?thesis
        using p sc0 r ra ob cnt assms(2) unfolding st work_def
        by (cases "0 < r") simp_all
    qed
  qed
qed

lemma completed_step:
  assumes "pipe_inv (int (length prog)) s"
  shows "completed (step prog s) = completed s + occ (pipe s ! 4)"
proof -
  from assms have ok: "slots_ok s" by (simp add: pipe_inv_def)
  then obtain a b c d e where p: "pipe s = [a, b, c, d, e]"
    and bd: "- 1 \<le> a" "- 1 \<le> b" "- 1 \<le> c" "- 1 \<le> d" "- 1 \<le> e"
    by (rule slots_okE)
  show ?thesis
  proof (cases "0 < stall_counter s")
    case True
    with p bd show ?thesis by (simp add: step_stall_shape)
  next
    case False
    from assms p have nr: "0 \<le> a \<longrightarrow> b \<noteq> a"
      using pipe_inv_no_revert [of "int (length prog)" s] by simp
    with p bd False show ?thesis by (simp add: step_advance_shape)
  qed
qed

lemma sim_loop_returns:
  assumes "reachable prog s"
  shows "\<exists>s'. sim_loop prog s = Some s' \<and> reachable prog s' \<and> completed s' = int (length prog)"
  using assms
proof (induction "work (int (length prog)) s" arbitrary: s rule: less_induct)
  case less
  have inv: "pipe_inv (int (length prog)) s"
    using less.prems by (rule reachable_inv)
  show ?case
  proof (cases "completed s < int (length prog)")
    case True
    have "work (int (length prog)) (step prog s) < work (int (length prog)) s"
      using inv True by (rule work_decreases)
    moreover have "reachable prog (step prog s)"
      using less.prems True by (rule reachable.cycle)
    ultimately obtain s' where "sim_loop prog (step prog s) = Some s'"
      "reachable prog s'" "completed s' = int (length prog)"
      using less.hyps by blast
    with True show ?thesis by (subst sim_loop.simps) simp
  next
    case False
    have "completed s \<le> int (length prog)"
      using inv occ_bounds(1) [of "pipe s ! 0"] occ_bounds(1) [of "pipe s ! 1"]
        occ_bounds(1) [of "pipe s ! 2"] occ_bounds(1) [of "pipe s ! 3"]
        occ_bounds(1) [of "pipe s ! 4"]
      by (simp add: pipe_inv_def Let_def)
    with False have "completed s = int (length prog)" by simp
    with False less.prems show ?thesis by (subst sim_loop.simps) simp
  qed
qed

lemma next_retirement:
  assumes "reachable prog s" "completed s < int (length prog)"
  shows "\<exists>k. completed ((step prog ^^ k) s) = completed s + 1 \<and>
             (\<forall>j<k. completed ((step prog ^^ j) s) = completed s)"
  using assms
proof (induction "work (int (length prog)) s" arbitrary: s rule: less_induct)
  case less
  have inv: "pipe_inv (int (length prog)) s"
    using less.prems(1) by (rule reachable_inv)
  have cs: "completed (step prog s) = completed s + occ (pipe s ! 4)"
    using inv by (rule completed_step)
  show ?case
  proof (cases "0 \<le> pipe s ! 4")
    case True
    then have "completed ((step prog ^^ 1) s) = completed s + 1"
      using cs by (simp add: occ_index)
    moreover have "\<forall>j<(1::nat). completed ((step prog ^^ j) s) = completed s" by simp
    ultimately show ?thesis by blast
  next
    case False
    then have same: "completed (step prog s) = completed s"
      using cs by (simp add: occ_def)
    have "work (int (length prog)) (step prog s) < work (int (length prog)) s"
      using inv less.prems(2) by (rule work_decreases)
    moreover have "reachable prog (step prog s)"
      using less.prems by (rule reachable.cycle)
    ultimately obtain k where k: "completed ((step prog ^^ k) (step prog s)) = completed (step prog s) + 1"
      "\<forall>j<k. completed ((step prog ^^ j) (step prog s)) = completed (step prog s)"
      using less.hyps [of "step prog s"] less.prems(2) same by auto
    have "completed ((step prog ^^ Suc k) s) = completed s + 1"
      using k(1) same by (simp add: funpow_swap1)
    moreover have "\<forall>j<Suc k. completed ((step prog ^^ j) s) = completed s"
    proof (intro allI impI)
      fix j assume "j < Suc k"
      show "completed ((step prog ^^ j) s) = completed s"
      proof (cases j)
        case 0 then show ?thesis by simp
      next
        case (Suc i)
        with \<open>j < Suc k\<close> have "i < k" by simp
        with k(2) same Suc show ?thesis by (simp add: funpow_swap1)
      qed
    qed
    ultimately show ?thesis by blast
  qed
qed




lemma pipe_inv_ordered:
  assumes "pipe_inv n s" "i < j" "j < 5" "0 \<le> pipe s ! i" "0 \<le> pipe s ! j"
  shows "pipe s ! j < pipe s ! i"
proof -
  from assms(1) have ok: "slots_ok s" by (simp add: pipe_inv_def)
  then obtain a b c d e where p: "pipe s = [a, b, c, d, e]"
    and bd: "- 1 \<le> a" "- 1 \<le> b" "- 1 \<le> c" "- 1 \<le> d" "- 1 \<le> e"
    by (rule slots_okE)
  from assms(1) p have eqs: "0 \<le> a \<longrightarrow> a = pc s - 1" "0 \<le> b \<longrightarrow> b = pc s - 1 - occ a"
    "0 \<le> c \<longrightarrow> c = pc s - 1 - occ a - occ b" "0 \<le> d \<longrightarrow> d = pc s - 1 - occ a - occ b - occ c"
    "0 \<le> e \<longrightarrow> e = pc s - 1 - occ a - occ b - occ c - occ d"
    by (simp_all add: pipe_inv_def Let_def)
  note ob = occ_bounds [of a] occ_bounds [of b] occ_bounds [of c] occ_bounds [of d]
  note oi = occ_index [of a] occ_index [of b] occ_index [of c] occ_index [of d]
  from assms(2,3) consider
      "i = 0" "j = 1" | "i = 0" "j = 2" | "i = 0" "j = 3" | "i = 0" "j = 4"
    | "i = 1" "j = 2" | "i = 1" "j = 3" | "i = 1" "j = 4"
    | "i = 2" "j = 3" | "i = 2" "j = 4" | "i = 3" "j = 4"
    by atomize_elim presburger
  then show ?thesis
  proof cases
    case 1 with assms(4,5) p eqs ob oi show ?thesis by simp
  next
    case 2 with assms(4,5) p eqs ob oi show ?thesis by simp
  next
    case 3 with assms(4,5) p eqs ob oi show ?thesis by simp
  next
    case 4 with assms(4,5) p eqs ob oi show ?thesis by simp
  next
    case 5 with assms(4,5) p eqs ob oi show ?thesis by simp
  next
    case 6 with assms(4,5) p eqs ob oi show ?thesis by simp
  next
    case 7 with assms(4,5) p eqs ob oi show ?thesis by simp
  next
    case 8 with assms(4,5) p eqs ob oi show ?thesis by simp
  next
    case 9 with assms(4,5) p eqs ob oi show ?thesis by simp
  next
    case 10 with assms(4,5) p eqs ob oi show ?thesis by simp
  qed
qed

lemma slot_unique:
  assumes "pipe_inv n s" "in_slot s k x" "in_slot s j x"
  shows "j = k"
proof (rule ccontr)
  assume "j \<noteq> k"
  then consider "j < k" | "k < j" by linarith
  then show False
  proof cases
    case 1
    with assms have "pipe s ! k < pipe s ! j"
      by (intro pipe_inv_ordered [of n s j k]) (simp_all add: in_slot_def)
    with assms show False by (simp add: in_slot_def)
  next
    case 2
    with assms have "pipe s ! j < pipe s ! k"
      by (intro pipe_inv_ordered [of n s k j]) (simp_all add: in_slot_def)
    with assms show False by (simp add: in_slot_def)
  qed
qed

subsection \<open>Slots over one iteration\<close>

lemma in_slot_explicit:
  assumes "pipe s = [a, b, c, d, e]"
  shows "in_slot s k x \<longleftrightarrow>
           0 \<le> x \<and> (k = 0 \<and> a = x \<or> k = 1 \<and> b = x \<or> k = 2 \<and> c = x \<or> k = 3 \<and> d = x \<or> k = 4 \<and> e = x)"
proof (cases "k < 5")
  case False
  then show ?thesis by (simp add: in_slot_def)
next
  case True
  then consider "k = 0" | "k = 1" | "k = 2" | "k = 3" | "k = 4"
    by atomize_elim presburger
  then show ?thesis
    using assms by cases (simp_all add: in_slot_def)
qed

lemma in_flight_explicit:
  assumes "pipe s = [a, b, c, d, e]"
  shows "in_flight s x \<longleftrightarrow> 0 \<le> x \<and> (a = x \<or> b = x \<or> c = x \<or> d = x \<or> e = x)"
  unfolding in_flight_def by (simp add: in_slot_explicit [OF assms])

lemma pipe_inv_range:
  assumes "pipe_inv n s" "in_slot s k x"
  shows "completed s \<le> x \<and> x < pc s"
proof -
  from assms(1) have ok: "slots_ok s" by (simp add: pipe_inv_def)
  then obtain a b c d e where p: "pipe s = [a, b, c, d, e]"
    and bd: "- 1 \<le> a" "- 1 \<le> b" "- 1 \<le> c" "- 1 \<le> d" "- 1 \<le> e"
    by (rule slots_okE)
  from assms(1) p have eqs: "0 \<le> a \<longrightarrow> a = pc s - 1" "0 \<le> b \<longrightarrow> b = pc s - 1 - occ a"
    "0 \<le> c \<longrightarrow> c = pc s - 1 - occ a - occ b" "0 \<le> d \<longrightarrow> d = pc s - 1 - occ a - occ b - occ c"
    "0 \<le> e \<longrightarrow> e = pc s - 1 - occ a - occ b - occ c - occ d"
    "completed s = pc s - occ a - occ b - occ c - occ d - occ e"
    by (simp_all add: pipe_inv_def Let_def)
  note ob = occ_bounds [of a] occ_bounds [of b] occ_bounds [of c] occ_bounds [of d] occ_bounds [of e]
  note oi = occ_index [of a] occ_index [of b] occ_index [of c] occ_index [of d] occ_index [of e]
  from assms(2) p consider "0 \<le> a" "x = a" | "0 \<le> b" "x = b" | "0 \<le> c" "x = c"
    | "0 \<le> d" "x = d" | "0 \<le> e" "x = e"
    by (auto simp: in_slot_explicit)
  then show ?thesis
  proof cases
    case 1 with eqs ob oi show ?thesis by simp
  next
    case 2 with eqs ob oi show ?thesis by simp
  next
    case 3 with eqs ob oi show ?thesis by simp
  next
    case 4 with eqs ob oi show ?thesis by simp
  next
    case 5 with eqs ob oi show ?thesis by simp
  qed
qed

lemma not_in_flight_pc:
  assumes "pipe_inv n s"
  shows "\<not> in_flight s (pc s)"
proof
  assume "in_flight s (pc s)"
  then obtain k where "in_slot s k (pc s)" by (auto simp: in_flight_def)
  with assms have "pc s < pc s" using pipe_inv_range by blast
  then show False by simp
qed


lemma pipe_inv_distinct:
  assumes "pipe_inv n s" "pipe s = [a, b, c, d, e]"
  shows "0 \<le> a \<longrightarrow> a \<noteq> b \<and> a \<noteq> c \<and> a \<noteq> d \<and> a \<noteq> e"
    "0 \<le> b \<longrightarrow> b \<noteq> c \<and> b \<noteq> d \<and> b \<noteq> e"
    "0 \<le> c \<longrightarrow> c \<noteq> d \<and> c \<noteq> e"
    "0 \<le> d \<longrightarrow> d \<noteq> e"
proof -
  have u: "j = k" if "in_slot s k x" "in_slot s j x" for j k x
    using assms(1) that by (rule slot_unique)
  show "0 \<le> a \<longrightarrow> a \<noteq> b \<and> a \<noteq> c \<and> a \<noteq> d \<and> a \<noteq> e"
    using u [of 0 a 1] u [of 0 a 2] u [of 0 a 3] u [of 0 a 4] assms(2)
    by (auto simp: in_slot_def)
  show "0 \<le> b \<longrightarrow> b \<noteq> c \<and> b \<noteq> d \<and> b \<noteq> e"
    using u [of 1 b 2] u [of 1 b 3] u [of 1 b 4] assms(2)
    by (auto simp: in_slot_def)
  show "0 \<le> c \<longrightarrow> c \<noteq> d \<and> c \<noteq> e"
    using u [of 2 c 3] u [of 2 c 4] assms(2)
    by (auto simp: in_slot_def)
  show "0 \<le> d \<longrightarrow> d \<noteq> e"
    using u [of 3 d 4] assms(2)
    by (auto simp: in_slot_def)
qed

lemma in_slotE:
  assumes "in_slot s k x" "pipe s = [a, b, c, d, e]"
  obtains (IF) "k = 0" "x = a" "0 \<le> a"
    | (ID) "k = 1" "x = b" "0 \<le> b"
    | (EX) "k = 2" "x = c" "0 \<le> c"
    | (MEM) "k = 3" "x = d" "0 \<le> d"
    | (WB) "k = 4" "x = e" "0 \<le> e"
  using assms by (auto simp: in_slot_explicit)

lemma in_slot_nth:
  assumes "pipe s = [a, b, c, d, e]"
  shows "in_slot s 0 x \<longleftrightarrow> 0 \<le> x \<and> a = x" "in_slot s 1 x \<longleftrightarrow> 0 \<le> x \<and> b = x"
    "in_slot s 2 x \<longleftrightarrow> 0 \<le> x \<and> c = x" "in_slot s 3 x \<longleftrightarrow> 0 \<le> x \<and> d = x"
    "in_slot s 4 x \<longleftrightarrow> 0 \<le> x \<and> e = x"
    "in_slot s (Suc 0) x \<longleftrightarrow> 0 \<le> x \<and> b = x"
  using assms by (simp_all add: in_slot_def)

lemma stall_step_moves:
  assumes inv: "pipe_inv (int (length prog)) s" and st: "0 < stall_counter s"
  shows "in_slot s k x \<Longrightarrow>
           (if k = 4 then \<not> in_flight (step prog s) x
            else if k \<le> 1 then in_slot (step prog s) k x \<and> \<not> in_slot (step prog s) (k + 1) x
            else in_slot (step prog s) (k + 1) x)"
    and "in_slot (step prog s) k x \<Longrightarrow>
           (if k \<le> 1 then in_slot s k x else 0 < k \<and> in_slot s (k - 1) x)"
    and "pc (step prog s) = pc s"
proof -
  from inv have ok: "slots_ok s" by (simp add: pipe_inv_def)
  then obtain a b c d e where p: "pipe s = [a, b, c, d, e]"
    and bd: "- 1 \<le> a" "- 1 \<le> b" "- 1 \<le> c" "- 1 \<le> d" "- 1 \<le> e"
    by (rule slots_okE)
  from p bd st have sh: "step prog s = \<lparr>pipe = [a, b, - 1, c, d], pc = pc s,
            completed = completed s + occ e,
            total_stalls = total_stalls s + 1, cycle = cycle s + 1,
            stall_counter = stall_counter s - 1\<rparr>"
    by (intro step_stall_shape) simp_all
  then have p': "pipe (step prog s) = [a, b, - 1, c, d]" by simp
  note dist = pipe_inv_distinct [OF inv p]
  note n' = in_slot_def p' and n = in_slot_def p
  show "if k = 4 then \<not> in_flight (step prog s) x
            else if k \<le> 1 then in_slot (step prog s) k x \<and> \<not> in_slot (step prog s) (k + 1) x
            else in_slot (step prog s) (k + 1) x" if "in_slot s k x"
    using that p
  proof (cases rule: in_slotE)
    case IF with dist show ?thesis by (simp add: n')
  next
    case ID then show ?thesis by (simp add: n')
  next
    case EX then show ?thesis by (simp add: n')
  next
    case MEM then show ?thesis by (simp add: n')
  next
    case WB with dist show ?thesis by (auto simp: in_flight_explicit [OF p'])
  qed
  show "if k \<le> 1 then in_slot s k x else 0 < k \<and> in_slot s (k - 1) x"
    if "in_slot (step prog s) k x"
    using that p'
  proof (cases rule: in_slotE)
    case IF then show ?thesis by (simp add: n)
  next
    case ID then show ?thesis by (simp add: n)
  next
    case EX then show ?thesis by simp
  next
    case MEM then show ?thesis by (simp add: n)
  next
    case WB then show ?thesis by (simp add: n)
  qed
  show "pc (step prog s) = pc s" by (simp add: sh)
qed

lemma advance_step_moves:
  assumes inv: "pipe_inv (int (length prog)) s" and st: "\<not> 0 < stall_counter s"
  shows "in_slot s k x \<Longrightarrow>
           (if k = 4 then \<not> in_flight (step prog s) x
            else in_slot (step prog s) (k + 1) x \<and> \<not> in_slot (step prog s) k x)"
    and "in_slot (step prog s) k x \<Longrightarrow>
           (if k = 0 then x = pc s \<and> \<not> in_flight s x \<and> pc (step prog s) = pc s + 1
            else in_slot s (k - 1) x)"
    and "pc s \<le> pc (step prog s)"
proof -
  from inv have ok: "slots_ok s" by (simp add: pipe_inv_def)
  then obtain a b c d e where p: "pipe s = [a, b, c, d, e]"
    and bd: "- 1 \<le> a" "- 1 \<le> b" "- 1 \<le> c" "- 1 \<le> d" "- 1 \<le> e"
    by (rule slots_okE)
  from inv p have nr: "0 \<le> a \<longrightarrow> b \<noteq> a"
    using pipe_inv_no_revert [of "int (length prog)" s] by simp
  define f where "f = (if pc s < int (length prog) then pc s else - 1)"
  from p bd st nr have sh: "step prog s =
           \<lparr>pipe = [f, a, b, c, d],
            pc = (if pc s < int (length prog) then pc s + 1 else pc s),
            completed = completed s + occ e,
            total_stalls = total_stalls s, cycle = cycle s + 1,
            stall_counter = (if 0 < needed_stalls_for_id a b c prog
                             then needed_stalls_for_id a b c prog else stall_counter s)\<rparr>"
    unfolding f_def by (intro step_advance_shape) simp_all
  then have p': "pipe (step prog s) = [f, a, b, c, d]" by simp
  note dist = pipe_inv_distinct [OF inv p]
  note n' = in_slot_def p' and n = in_slot_def p
  have rng: "x < pc s" if "in_slot s k x" for k x
    using inv that pipe_inv_range by blast
  have rngs: "0 \<le> a \<longrightarrow> a < pc s" "0 \<le> b \<longrightarrow> b < pc s" "0 \<le> c \<longrightarrow> c < pc s"
    "0 \<le> d \<longrightarrow> d < pc s" "0 \<le> e \<longrightarrow> e < pc s"
    using rng [of 0 a] rng [of 1 b] rng [of 2 c] rng [of 3 d] rng [of 4 e]
    by (simp_all add: in_slot_nth [OF p])
  have f: "f = - 1 \<or> f = pc s" by (simp add: f_def)
  show "if k = 4 then \<not> in_flight (step prog s) x
            else in_slot (step prog s) (k + 1) x \<and> \<not> in_slot (step prog s) k x"
    if "in_slot s k x"
    using that p
  proof (cases rule: in_slotE)
    case IF with rngs f show ?thesis by (auto simp: n')
  next
    case ID with dist show ?thesis by (auto simp: n')
  next
    case EX with dist show ?thesis by (auto simp: n')
  next
    case MEM with dist show ?thesis by (auto simp: n')
  next
    case WB with dist rngs f show ?thesis by (auto simp: in_flight_explicit [OF p'])
  qed
  show "if k = 0 then x = pc s \<and> \<not> in_flight s x \<and> pc (step prog s) = pc s + 1
            else in_slot s (k - 1) x"
    if "in_slot (step prog s) k x"
    using that p'
  proof (cases rule: in_slotE)
    case IF
    with f have "f = pc s" "pc s < int (length prog)" by (auto simp: f_def split: if_splits)
    with IF show ?thesis using not_in_flight_pc [OF inv] by (simp add: sh)
  next
    case ID then show ?thesis by (simp add: n)
  next
    case EX then show ?thesis by (simp add: n)
  next
    case MEM then show ?thesis by (simp add: n)
  next
    case WB then show ?thesis by (simp add: n)
  qed
  show "pc s \<le> pc (step prog s)" by (simp add: sh)
qed

subsection \<open>Termination and the claims about the loop\<close>

lemma reachable_slots_ok: "reachable prog s \<Longrightarrow> slots_ok s"
  using reachable_inv [of prog s] by (simp add: pipe_inv_def)

lemma completed_le_length:
  assumes "pipe_inv n s"
  shows "completed s \<le> n"
  using assms occ_bounds(1) [of "pipe s ! 0"] occ_bounds(1) [of "pipe s ! 1"]
    occ_bounds(1) [of "pipe s ! 2"] occ_bounds(1) [of "pipe s ! 3"]
    occ_bounds(1) [of "pipe s ! 4"]
  by (simp add: pipe_inv_def Let_def)

text \<open>
  Claim C7. The loop of the simulator returns for every program, in a state with
  \<open>completed = N\<close>. In every state the loop passes through, \<open>completed\<close> is at most
  \<open>N\<close>, so the guard \<open>completed < N\<close> fails exactly when \<open>completed = N\<close>. One
  iteration never lowers \<open>completed\<close> and raises it by at most one (a pipeline of five
  stages cannot retire an instruction in each of its first cycles), and while
  \<open>completed < N\<close> a later iteration does raise it: after some \<open>k\<close> iterations it is
  one more than now, and it has kept its value until then. This is the sense in which the
  counter increases over time. The loop needs no \<open>N \<ge> 1\<close> for this; \<^verbatim>\<open>main\<close>
  never enters it with \<open>N = 0\<close>, and for \<open>N \<ge> 1\<close> it ends with a report of the
  cycles and the stalls, not with an error.
\<close>

theorem simulator_terminates:
  shows "(\<exists>s'. sim_loop prog init_state = Some s' \<and> reachable prog s'
              \<and> completed s' = int (length prog))
       \<and> (prog \<noteq> [] \<longrightarrow> (\<exists>c st. simulator_main prog = Some (Inr (c, st))))
       \<and> (\<forall>s. reachable prog s \<longrightarrow>
              completed s \<le> int (length prog)
            \<and> (\<not> completed s < int (length prog) \<longleftrightarrow> completed s = int (length prog))
            \<and> completed s \<le> completed (step prog s)
            \<and> completed (step prog s) \<le> completed s + 1
            \<and> (completed s < int (length prog) \<longrightarrow>
                 (\<exists>k. completed ((step prog ^^ k) s) = completed s + 1 \<and>
                      (\<forall>j<k. completed ((step prog ^^ j) s) = completed s))))"
proof (intro conjI allI impI)
  show "\<exists>s'. sim_loop prog init_state = Some s' \<and> reachable prog s'
              \<and> completed s' = int (length prog)"
    using reachable.start by (rule sim_loop_returns)
next
  assume "prog \<noteq> []"
  then show "\<exists>c st. simulator_main prog = Some (Inr (c, st))"
    using sim_loop_returns [OF reachable.start, of prog]
    by (auto simp: simulator_main_def)
next
  fix s assume r: "reachable prog s"
  then have inv: "pipe_inv (int (length prog)) s" by (rule reachable_inv)
  then show le: "completed s \<le> int (length prog)" by (rule completed_le_length)
  then show "(\<not> completed s < int (length prog)) = (completed s = int (length prog))"
    by auto
  have cs: "completed (step prog s) = completed s + occ (pipe s ! 4)"
    using inv by (rule completed_step)
  show "completed s \<le> completed (step prog s)"
    using cs occ_bounds(1) [of "pipe s ! 4"] by simp
  show "completed (step prog s) \<le> completed s + 1"
    using cs occ_bounds(2) [of "pipe s ! 4"] by simp
  show "\<exists>k. completed ((step prog ^^ k) s) = completed s + 1 \<and>
           (\<forall>j<k. completed ((step prog ^^ j) s) = completed s)"
    if "completed s < int (length prog)"
    using r that by (rule next_retirement)
qed

theorem simulator_terminates_witness:
  "(\<exists>s'. sim_loop scenario_B init_state = Some s' \<and> completed s' = 2)
   \<and> reachable scenario_B init_state
   \<and> completed init_state \<le> int (length scenario_B)
   \<and> completed init_state < int (length scenario_B)
   \<and> (\<exists>k. completed ((step scenario_B ^^ k) init_state) = 1)"
proof -
  have len: "int (length scenario_B) = 2" by (simp add: scenario_B_def)
  have lt: "completed init_state < int (length scenario_B)"
    by (simp add: len init_state_def)
  note t = simulator_terminates [of scenario_B]
  from t have 1: "\<exists>s'. sim_loop scenario_B init_state = Some s' \<and> completed s' = 2"
    unfolding len by blast
  from t reachable.start [of scenario_B] lt
  have 2: "\<exists>k. completed ((step scenario_B ^^ k) init_state) = completed init_state + 1"
    by blast
  have c0: "completed init_state = 0" by (simp add: init_state_def)
  from 1 2 lt show ?thesis
    using reachable.start [of scenario_B] by (simp add: c0)
qed

text \<open>
  Claim C8. In an iteration entered with \<open>stall_counter > 0\<close>: the MEM occupant moves to
  WB, the EX occupant moves to MEM and EX becomes a bubble, ID, IF and the program counter
  keep their values, \<open>stall_counter\<close> drops by one and \<open>total_stalls\<close> grows by one.
  The hazard oracle is not consulted: the new state is the same whatever program
  \<open>prog'\<close> the iteration is run with.
\<close>

theorem stall_cycle_frame:
  assumes "reachable prog s" "completed s < int (length prog)" "0 < stall_counter s"
  shows "pipe (step prog s) ! 4 = pipe s ! 3
       \<and> pipe (step prog s) ! 3 = pipe s ! 2
       \<and> pipe (step prog s) ! 2 = - 1
       \<and> pipe (step prog s) ! 1 = pipe s ! 1
       \<and> pipe (step prog s) ! 0 = pipe s ! 0
       \<and> pc (step prog s) = pc s
       \<and> stall_counter (step prog s) = stall_counter s - 1
       \<and> total_stalls (step prog s) = total_stalls s + 1
       \<and> step prog' s = step prog s"
proof -
  from assms(1) have "slots_ok s" by (rule reachable_slots_ok)
  then obtain a b c d e where p: "pipe s = [a, b, c, d, e]"
    and bd: "- 1 \<le> a" "- 1 \<le> b" "- 1 \<le> c" "- 1 \<le> d" "- 1 \<le> e"
    by (rule slots_okE)
  have sh: "step q s = \<lparr>pipe = [a, b, - 1, c, d], pc = pc s,
            completed = completed s + occ e,
            total_stalls = total_stalls s + 1, cycle = cycle s + 1,
            stall_counter = stall_counter s - 1\<rparr>" for q
    using p bd assms(3) by (intro step_stall_shape) simp_all
  show ?thesis by (simp add: sh [of prog] sh [of prog'] p)
qed

lemma reachable_B3:
  "reachable scenario_B (step scenario_B (step scenario_B (step scenario_B init_state)))"
proof -
  have r0: "reachable scenario_B init_state" by (rule reachable.start)
  have r1: "reachable scenario_B (step scenario_B init_state)"
    by (rule reachable.cycle [OF r0]) code_simp
  have r2: "reachable scenario_B (step scenario_B (step scenario_B init_state))"
    by (rule reachable.cycle [OF r1]) code_simp
  show ?thesis
    by (rule reachable.cycle [OF r2]) code_simp
qed

lemma state_B3:
  "step scenario_B (step scenario_B (step scenario_B init_state)) =
     \<lparr>pipe = [- 1, 1, 0, - 1, - 1], pc = 2, completed = 0, total_stalls = 0, cycle = 3,
      stall_counter = 2\<rparr>"
  by code_simp

lemma state_B4:
  "step scenario_B \<lparr>pipe = [- 1, 1, 0, - 1, - 1], pc = 2, completed = 0, total_stalls = 0,
      cycle = 3, stall_counter = 2\<rparr> =
     \<lparr>pipe = [- 1, 1, - 1, 0, - 1], pc = 2, completed = 0, total_stalls = 1, cycle = 4,
      stall_counter = 1\<rparr>"
  by code_simp


theorem stall_cycle_frame_witness:
  "reachable scenario_B (step scenario_B (step scenario_B (step scenario_B init_state)))
   \<and> completed (step scenario_B (step scenario_B (step scenario_B init_state)))
       < int (length scenario_B)
   \<and> 0 < stall_counter (step scenario_B (step scenario_B (step scenario_B init_state)))
   \<and> pipe (step scenario_B (step scenario_B (step scenario_B (step scenario_B init_state))))
       = [- 1, 1, - 1, 0, - 1]
   \<and> stall_counter
        (step scenario_B (step scenario_B (step scenario_B (step scenario_B init_state)))) = 1
   \<and> total_stalls
        (step scenario_B (step scenario_B (step scenario_B (step scenario_B init_state)))) = 1"
proof -
  let ?s3 = "step scenario_B (step scenario_B (step scenario_B init_state))"
  have len: "int (length scenario_B) = 2" by (simp add: scenario_B_def)
  have c: "completed ?s3 < int (length scenario_B)"
    unfolding state_B3 len by simp
  have st: "0 < stall_counter ?s3" by (simp add: state_B3)
  from stall_cycle_frame [OF reachable_B3 c st, of scenario_B] reachable_B3 c st
  show ?thesis by (simp add: state_B3 state_B4)
qed

text \<open>
  Claim C9. In every reachable state an instruction index sits in at most one slot, and the
  indices in flight are those fetched and not yet retired. Over one iteration an occupant
  of WB leaves the pipeline, an occupant of any other slot is found in the next slot, or,
  for IF and ID during a stall cycle, in the same slot; conversely an occupant after the
  iteration was in the same slot (IF or ID, stall cycle) or in the slot before, or it is
  the instruction \<open>pc\<close> fetched in this iteration, which was in no slot. As \<open>pc\<close> never
  decreases and every occupant is below \<open>pc\<close>, an instruction enters at IF once and
  visits IF, ID, EX, MEM, WB in this order without skipping one.
\<close>

theorem slot_occupancy_order:
  assumes "reachable prog s"
  shows "(\<forall>k j x. in_slot s k x \<and> in_slot s j x \<longrightarrow> j = k)
       \<and> (\<forall>k x. in_slot s k x \<longrightarrow> completed s \<le> x \<and> x < pc s)
       \<and> (completed s < int (length prog) \<longrightarrow>
            pc s \<le> pc (step prog s)
          \<and> (\<forall>k x. in_slot s k x \<longrightarrow>
                (if k = 4 then \<not> in_flight (step prog s) x
                 else in_slot (step prog s) (k + 1) x
                    \<or> (k \<le> 1 \<and> 0 < stall_counter s \<and> in_slot (step prog s) k x)))
          \<and> (\<forall>k x. in_slot (step prog s) k x \<longrightarrow>
                (k = 0 \<and> x = pc s \<and> \<not> in_flight s x \<and> pc (step prog s) = pc s + 1)
              \<or> (0 < k \<and> in_slot s (k - 1) x)
              \<or> (k \<le> 1 \<and> 0 < stall_counter s \<and> in_slot s k x)))"
proof -
  from assms have inv: "pipe_inv (int (length prog)) s" by (rule reachable_inv)
  have uniq: "\<forall>k j x. in_slot s k x \<and> in_slot s j x \<longrightarrow> j = k"
    using slot_unique [OF inv] by blast
  have rng: "\<forall>k x. in_slot s k x \<longrightarrow> completed s \<le> x \<and> x < pc s"
    using pipe_inv_range [OF inv] by blast
  have mv: "pc s \<le> pc (step prog s)
          \<and> (\<forall>k x. in_slot s k x \<longrightarrow>
                (if k = 4 then \<not> in_flight (step prog s) x
                 else in_slot (step prog s) (k + 1) x
                    \<or> (k \<le> 1 \<and> 0 < stall_counter s \<and> in_slot (step prog s) k x)))
          \<and> (\<forall>k x. in_slot (step prog s) k x \<longrightarrow>
                (k = 0 \<and> x = pc s \<and> \<not> in_flight s x \<and> pc (step prog s) = pc s + 1)
              \<or> (0 < k \<and> in_slot s (k - 1) x)
              \<or> (k \<le> 1 \<and> 0 < stall_counter s \<and> in_slot s k x))"
  proof (cases "0 < stall_counter s")
    case True
    note m = stall_step_moves [OF inv True]
    have a: "pc s \<le> pc (step prog s)" using m(3) by simp
    have b: "if k = 4 then \<not> in_flight (step prog s) x
                 else in_slot (step prog s) (k + 1) x
                    \<or> (k \<le> 1 \<and> 0 < stall_counter s \<and> in_slot (step prog s) k x)"
      if "in_slot s k x" for k x
      using m(1) [OF that] True by (simp split: if_splits)
    have c: "(k = 0 \<and> x = pc s \<and> \<not> in_flight s x \<and> pc (step prog s) = pc s + 1)
              \<or> (0 < k \<and> in_slot s (k - 1) x)
              \<or> (k \<le> 1 \<and> 0 < stall_counter s \<and> in_slot s k x)"
      if "in_slot (step prog s) k x" for k x
      using m(2) [OF that] True by (simp split: if_splits)
    from a b c show ?thesis by blast
  next
    case False
    note m = advance_step_moves [OF inv False]
    have a: "pc s \<le> pc (step prog s)" using m(3) by simp
    have b: "if k = 4 then \<not> in_flight (step prog s) x
                 else in_slot (step prog s) (k + 1) x
                    \<or> (k \<le> 1 \<and> 0 < stall_counter s \<and> in_slot (step prog s) k x)"
      if "in_slot s k x" for k x
      using m(1) [OF that] by (simp split: if_splits)
    have c: "(k = 0 \<and> x = pc s \<and> \<not> in_flight s x \<and> pc (step prog s) = pc s + 1)
              \<or> (0 < k \<and> in_slot s (k - 1) x)
              \<or> (k \<le> 1 \<and> 0 < stall_counter s \<and> in_slot s k x)"
      if "in_slot (step prog s) k x" for k x
      using m(2) [OF that] by (cases "k = 0") auto
    from a b c show ?thesis by blast
  qed
  from uniq rng mv show ?thesis by blast
qed

theorem slot_occupancy_order_witness:
  "reachable scenario_B (step scenario_B (step scenario_B (step scenario_B init_state)))
   \<and> completed (step scenario_B (step scenario_B (step scenario_B init_state)))
       < int (length scenario_B)
   \<and> in_slot (step scenario_B (step scenario_B (step scenario_B init_state))) 1 1
   \<and> in_slot (step scenario_B (step scenario_B (step scenario_B init_state))) 2 0
   \<and> \<not> in_slot (step scenario_B (step scenario_B (step scenario_B init_state))) 2 1
   \<and> in_slot
        (step scenario_B (step scenario_B (step scenario_B (step scenario_B init_state)))) 1 1
   \<and> in_slot
        (step scenario_B (step scenario_B (step scenario_B (step scenario_B init_state)))) 3 0"
proof -
  let ?s3 = "step scenario_B (step scenario_B (step scenario_B init_state))"
  have len: "int (length scenario_B) = 2" by (simp add: scenario_B_def)
  have c: "completed ?s3 < int (length scenario_B)"
    unfolding state_B3 len by simp
  have i1: "in_slot ?s3 1 1" by (simp add: state_B3 in_slot_def)
  have i2: "in_slot ?s3 2 0" by (simp add: state_B3 in_slot_def)
  note t = slot_occupancy_order [OF reachable_B3]
  from t i1 have n21: "\<not> in_slot ?s3 2 1" by fastforce
  from t c i2 have m3: "in_slot (step scenario_B ?s3) (2 + 1) 0" by fastforce
  have m1: "in_slot (step scenario_B ?s3) 1 1" by (simp add: state_B3 state_B4 in_slot_def)
  from reachable_B3 c i1 i2 n21 m3 m1 show ?thesis by simp
qed

text \<open>
  Claim C10. In a normal-advance iteration from a reachable state the shift leaves the
  former IF occupant in ID and the former ID occupant in EX; when the hazard check asks for
  a stall, EX and ID hold different indices, so \<open>revert_move\<close> is not applied: the
  iteration only sets \<open>stall_counter\<close>. No iteration from a reachable state executes the
  revert branch.
\<close>

theorem revert_branch_dead:
  assumes "reachable prog s"
  shows "\<not> revert_executes prog s
       \<and> (\<not> 0 < stall_counter s \<longrightarrow>
           (let t = advance (int (length prog)) (write_back (s\<lparr>cycle := cycle s + 1\<rparr>))
            in pipe t ! 1 = pipe s ! 0 \<and> pipe t ! 2 = pipe s ! 1
             \<and> (0 < needed_stalls_for_id (pipe t ! 1) (pipe t ! 2) (pipe t ! 3) prog
                  \<longrightarrow> pipe t ! 2 \<noteq> pipe t ! 1)
             \<and> step prog s =
                 t\<lparr>stall_counter :=
                     (if 0 < needed_stalls_for_id (pipe t ! 1) (pipe t ! 2) (pipe t ! 3) prog
                      then needed_stalls_for_id (pipe t ! 1) (pipe t ! 2) (pipe t ! 3) prog
                      else stall_counter t)\<rparr>))"
proof -
  let ?n = "int (length prog)"
  from assms have inv: "pipe_inv ?n s" by (rule reachable_inv)
  then have ok: "slots_ok s" by (simp add: pipe_inv_def)
  then obtain a b c d e where p: "pipe s = [a, b, c, d, e]"
    and bd: "- 1 \<le> a" "- 1 \<le> b" "- 1 \<le> c" "- 1 \<le> d" "- 1 \<le> e"
    by (rule slots_okE)
  from inv p have nr: "0 \<le> a \<longrightarrow> b \<noteq> a"
    using pipe_inv_no_revert [of ?n s] by simp
  let ?s1 = "s\<lparr>cycle := cycle s + 1\<rparr>"
  let ?s2 = "?s1\<lparr>pipe := [a, b, c, d, - 1], completed := completed s + occ e\<rparr>"
  let ?t = "?s2\<lparr>pipe := [if pc s < ?n then pc s else - 1, a, b, c, d],
            pc := (if pc s < ?n then pc s + 1 else pc s)\<rparr>"
  have wb: "write_back ?s1 = ?s2"
    using p bd write_back_shape [of ?s1 a b c d e] by simp
  have adv: "advance ?n ?s2 = ?t"
    using bd advance_shape [of ?s2 a b c d ?n] by simp
  have pos: "0 < needed_stalls_for_id a b c prog \<Longrightarrow> 0 \<le> a"
    by (rule needed_stalls_pos_id)
  have hz: "hazard_check prog ?t =
           ?t\<lparr>stall_counter := (if 0 < needed_stalls_for_id a b c prog
                               then needed_stalls_for_id a b c prog else stall_counter ?t)\<rparr>"
    by (rule hazard_check_shape) (use nr in simp_all)
  have 1: "\<not> revert_executes prog s"
    unfolding revert_executes_def Let_def wb adv using nr pos
    by (auto simp: revert_needed_def)
  have 2: "(let t = advance ?n (write_back ?s1)
            in pipe t ! 1 = pipe s ! 0 \<and> pipe t ! 2 = pipe s ! 1
             \<and> (0 < needed_stalls_for_id (pipe t ! 1) (pipe t ! 2) (pipe t ! 3) prog
                  \<longrightarrow> pipe t ! 2 \<noteq> pipe t ! 1)
             \<and> step prog s =
                 t\<lparr>stall_counter :=
                     (if 0 < needed_stalls_for_id (pipe t ! 1) (pipe t ! 2) (pipe t ! 3) prog
                      then needed_stalls_for_id (pipe t ! 1) (pipe t ! 2) (pipe t ! 3) prog
                      else stall_counter t)\<rparr>)"
    if ns: "\<not> 0 < stall_counter s"
  proof -
    have st: "step prog s = hazard_check prog ?t"
      unfolding step_def Let_def wb adv using ns by simp
    show ?thesis
      unfolding Let_def wb adv st hz using nr pos p by auto
  qed
  from 1 2 show ?thesis by blast
qed

lemma reachable_B2: "reachable scenario_B (step scenario_B (step scenario_B init_state))"
proof -
  have r0: "reachable scenario_B init_state" by (rule reachable.start)
  have r1: "reachable scenario_B (step scenario_B init_state)"
    by (rule reachable.cycle [OF r0]) code_simp
  show ?thesis
    by (rule reachable.cycle [OF r1]) code_simp
qed

lemma state_B2:
  "step scenario_B (step scenario_B init_state) =
     \<lparr>pipe = [1, 0, - 1, - 1, - 1], pc = 2, completed = 0, total_stalls = 0, cycle = 2,
      stall_counter = 0\<rparr>"
  by code_simp

lemma shifted_B2:
  "advance (int (length scenario_B))
     (write_back \<lparr>pipe = [1, 0, - 1, - 1, - 1], pc = 2, completed = 0, total_stalls = 0,
        cycle = 3, stall_counter = 0\<rparr>) =
     \<lparr>pipe = [- 1, 1, 0, - 1, - 1], pc = 2, completed = 0, total_stalls = 0, cycle = 3,
      stall_counter = 0\<rparr>"
  by code_simp

lemma needed_B2: "needed_stalls_for_id 1 0 (- 1) scenario_B = 2"
  by code_simp

theorem revert_branch_dead_witness:
  "reachable scenario_B (step scenario_B (step scenario_B init_state))
   \<and> \<not> revert_executes scenario_B (step scenario_B (step scenario_B init_state))
   \<and> \<not> 0 < stall_counter (step scenario_B (step scenario_B init_state))
   \<and> 0 < needed_stalls_for_id 1 0 (- 1) scenario_B
   \<and> pipe (step scenario_B (step scenario_B (step scenario_B init_state)))
       = [- 1, 1, 0, - 1, - 1]
   \<and> stall_counter (step scenario_B (step scenario_B (step scenario_B init_state))) = 2"
  using revert_branch_dead [OF reachable_B2] reachable_B2
  by (simp add: state_B2 shifted_B2 needed_B2 Let_def)

section \<open>The two programs side by side\<close>

subsection \<open>Totals of the timeline calculator\<close>

lemma sum_stalls_total:
  assumes "prog \<noteq> []"
  shows "total_cycles prog = int (length prog) + 4 + sum_stalls prog"
proof -
  have len: "length (stalls prog) = length prog"
    by (simp add: stalls_def stalls_loop_length)
  let ?i = "length prog - 1"
  from assms have i: "?i < length (stalls prog)" "Suc ?i = length prog"
    using len by (cases prog; simp)+
  have "IFc (timeline prog ! ?i) = 1 + int ?i + sum_list (take (Suc ?i) (stalls prog))"
    unfolding timeline_def using i(1) by (rule timeline_IF_sum)
  moreover have "WBc (timeline prog ! ?i) = IFc (timeline prog ! ?i) + 4"
    unfolding timeline_def using timeline_loop_stages [OF i(1), of 1] by simp
  ultimately show ?thesis
    using i(2) len assms by (simp add: total_cycles_def sum_stalls_def)
qed

lemma stalls_loop_nth:
  "i < length prog \<Longrightarrow>
     stalls_loop d1 d2 prog ! i =
       stall_for (if i = 0 then d1 else rd (prog ! (i - 1)))
                 (if i = 0 then d2 else if i = 1 then d1 else rd (prog ! (i - 2)))
                 (prog ! i)"
proof (induction prog arbitrary: d1 d2 i)
  case Nil
  then show ?case by simp
next
  case (Cons ins rest)
  show ?case
  proof (cases i)
    case 0
    then show ?thesis by simp
  next
    case (Suc j)
    with Cons.prems have j: "j < length rest" by simp
    show ?thesis
    proof (cases j)
      case 0
      with Suc j show ?thesis by (simp add: Cons.IH)
    next
      case (Suc k)
      with \<open>i = Suc j\<close> j show ?thesis by (simp add: Cons.IH)
    qed
  qed
qed

lemma valid_program_sources:
  assumes "valid_program prog" "i < length prog"
  shows "rs_count (prog ! i) \<le> length (rs (prog ! i))" "rd (prog ! i) \<noteq> []"
  using assms by (auto simp: valid_program_def valid_instr_def list_all_length)

lemma hazard_free_stalls:
  assumes "valid_program prog" "hazard_free prog" "i < length prog"
  shows "stalls prog ! i = 0"
proof -
  from assms(2,3) have hf:
    "1 \<le> i \<longrightarrow> rd (prog ! (i - 1)) \<notin> set (sources (prog ! i))"
    "2 \<le> i \<longrightarrow> rd (prog ! (i - 2)) \<notin> set (sources (prog ! i))"
    by (simp_all add: hazard_free_def list_all_length)
  have rc: "rs_count (prog ! i) \<le> length (rs (prog ! i))"
    using assms(1,3) by (rule valid_program_sources)
  show ?thesis
    using hf assms(3)
    by (auto simp: stalls_def stalls_loop_nth stall_for_def reg_in_sources_iff [OF rc])
qed

lemma sum_list_all_zero: "\<forall>x \<in> set xs. x = 0 \<Longrightarrow> sum_list xs = (0::int)"
  by (induction xs) simp_all

lemma hazard_free_timeline:
  assumes "valid_program prog" "hazard_free prog"
  shows "sum_stalls prog = 0" "total_cycles prog = int (length prog) + 4"
proof -
  have len: "length (stalls prog) = length prog"
    by (simp add: stalls_def stalls_loop_length)
  have "\<forall>x \<in> set (stalls prog). x = 0"
    using hazard_free_stalls [OF assms] len by (auto simp: in_set_conv_nth)
  then show z: "sum_stalls prog = 0"
    unfolding sum_stalls_def by (rule sum_list_all_zero)
  from assms(1) have "prog \<noteq> []" by (simp add: valid_program_def)
  then show "total_cycles prog = int (length prog) + 4"
    using sum_stalls_total [of prog] z by simp
qed

subsection \<open>The cycle count of the simulator\<close>

lemma step_counters:
  assumes "pipe_inv (int (length prog)) s"
  shows "cycle (step prog s) = cycle s + 1"
    and "total_stalls (step prog s) = total_stalls s + (if 0 < stall_counter s then 1 else 0)"
    and "pc (step prog s) = (if 0 < stall_counter s then pc s
                             else if pc s < int (length prog) then pc s + 1 else pc s)"
    and "stall_counter (step prog s) =
           (if 0 < stall_counter s then stall_counter s - 1
            else if 0 < needed_stalls_for_id (pipe s ! 0) (pipe s ! 1) (pipe s ! 2) prog
                 then needed_stalls_for_id (pipe s ! 0) (pipe s ! 1) (pipe s ! 2) prog
                 else stall_counter s)"
proof -
  from assms have ok: "slots_ok s" by (simp add: pipe_inv_def)
  then obtain a b c d e where p: "pipe s = [a, b, c, d, e]"
    and bd: "- 1 \<le> a" "- 1 \<le> b" "- 1 \<le> c" "- 1 \<le> d" "- 1 \<le> e"
    by (rule slots_okE)
  from assms p have nr: "0 \<le> a \<longrightarrow> b \<noteq> a"
    using pipe_inv_no_revert [of "int (length prog)" s] by simp
  have sh1: "0 < stall_counter s \<Longrightarrow> step prog s = \<lparr>pipe = [a, b, - 1, c, d], pc = pc s,
            completed = completed s + occ e,
            total_stalls = total_stalls s + 1, cycle = cycle s + 1,
            stall_counter = stall_counter s - 1\<rparr>"
    using p bd by (intro step_stall_shape) simp_all
  have sh2: "\<not> 0 < stall_counter s \<Longrightarrow> step prog s =
           \<lparr>pipe = [if pc s < int (length prog) then pc s else - 1, a, b, c, d],
            pc = (if pc s < int (length prog) then pc s + 1 else pc s),
            completed = completed s + occ e,
            total_stalls = total_stalls s, cycle = cycle s + 1,
            stall_counter = (if 0 < needed_stalls_for_id a b c prog
                             then needed_stalls_for_id a b c prog else stall_counter s)\<rparr>"
    using p bd nr by (intro step_advance_shape) simp_all
  show "cycle (step prog s) = cycle s + 1"
    using sh1 sh2 by (cases "0 < stall_counter s") simp_all
  show "total_stalls (step prog s) = total_stalls s + (if 0 < stall_counter s then 1 else 0)"
    using sh1 sh2 by (cases "0 < stall_counter s") simp_all
  show "pc (step prog s) = (if 0 < stall_counter s then pc s
                             else if pc s < int (length prog) then pc s + 1 else pc s)"
    using sh1 sh2 by (cases "0 < stall_counter s") simp_all
  show "stall_counter (step prog s) =
           (if 0 < stall_counter s then stall_counter s - 1
            else if 0 < needed_stalls_for_id (pipe s ! 0) (pipe s ! 1) (pipe s ! 2) prog
                 then needed_stalls_for_id (pipe s ! 0) (pipe s ! 1) (pipe s ! 2) prog
                 else stall_counter s)"
    using sh1 sh2 p by (cases "0 < stall_counter s") simp_all
qed

lemma stalled_in_id_step:
  assumes "pipe_inv (int (length prog)) s" "stalled_in_id s"
  shows "stalled_in_id (step prog s)"
proof -
  from assms have ok: "slots_ok s" by (simp add: pipe_inv_def)
  then obtain a b c d e where p: "pipe s = [a, b, c, d, e]"
    and bd: "- 1 \<le> a" "- 1 \<le> b" "- 1 \<le> c" "- 1 \<le> d" "- 1 \<le> e"
    by (rule slots_okE)
  from assms p have nr: "0 \<le> a \<longrightarrow> b \<noteq> a"
    using pipe_inv_no_revert [of "int (length prog)" s] by simp
  show ?thesis
  proof (cases "0 < stall_counter s")
    case True
    then have "step prog s = \<lparr>pipe = [a, b, - 1, c, d], pc = pc s,
            completed = completed s + occ e,
            total_stalls = total_stalls s + 1, cycle = cycle s + 1,
            stall_counter = stall_counter s - 1\<rparr>"
      using p bd by (intro step_stall_shape) simp_all
    with assms(2) True p show ?thesis by (simp add: stalled_in_id_def)
  next
    case False
    then have "step prog s =
           \<lparr>pipe = [if pc s < int (length prog) then pc s else - 1, a, b, c, d],
            pc = (if pc s < int (length prog) then pc s + 1 else pc s),
            completed = completed s + occ e,
            total_stalls = total_stalls s, cycle = cycle s + 1,
            stall_counter = (if 0 < needed_stalls_for_id a b c prog
                             then needed_stalls_for_id a b c prog else stall_counter s)\<rparr>"
      using p bd nr by (intro step_advance_shape) simp_all
    with False show ?thesis
      using needed_stalls_pos_id [of a b c prog] by (simp add: stalled_in_id_def)
  qed
qed

lemma reachable_stalled_in_id: "reachable prog s \<Longrightarrow> stalled_in_id s"
proof (induction rule: reachable.induct)
  case start
  show ?case by (simp add: stalled_in_id_def init_state_def)
next
  case (cycle s)
  then show ?case using reachable_inv stalled_in_id_step by blast
qed


lemma in_slot_lt5: "in_slot s k x \<Longrightarrow> k \<in> {0, 1, 2, 3, 4}"
  unfolding in_slot_def by auto

lemma cycle_inv_slot:
  assumes "cycle_inv n s" "in_slot s k (n - 1)"
  shows "cycle s = n + total_stalls s + int k"
  using assms in_slot_lt5 [OF assms(2)] unfolding cycle_inv_def by blast

lemma youngest_not_behind_id:
  assumes inv: "pipe_inv n s" and id: "0 \<le> pipe s ! 1" and x: "in_slot s k (n - 1)"
  shows "k \<le> 1"
proof (rule ccontr)
  assume "\<not> k \<le> 1"
  then have k: "1 < k" by simp
  from x have k5: "k < 5" and xk: "pipe s ! k = n - 1" and x0: "0 \<le> pipe s ! k"
    by (simp_all add: in_slot_def)
  have "pipe s ! k < pipe s ! 1"
    using inv k k5 id x0 by (rule pipe_inv_ordered)
  moreover have "in_slot s 1 (pipe s ! 1)" using id by (simp add: in_slot_def)
  then have "pipe s ! 1 < pc s" using inv pipe_inv_range by blast
  moreover have "pc s \<le> n" using inv by (simp add: pipe_inv_def)
  ultimately show False using xk by simp
qed

lemma cycle_inv_step:
  assumes inv: "pipe_inv (int (length prog)) s" and sid: "stalled_in_id s"
    and ci: "cycle_inv (int (length prog)) s" and run: "completed s < int (length prog)"
  shows "cycle_inv (int (length prog)) (step prog s)"
proof -
  let ?n = "int (length prog)"
  let ?s' = "step prog s"
  note sc = step_counters [OF inv]
  have pcn: "pc s \<le> ?n" using inv by (simp add: pipe_inv_def)
  have cs: "completed ?s' = completed s + occ (pipe s ! 4)"
    using inv by (rule completed_step)
  have part1: "cycle ?s' = pc ?s' + total_stalls ?s'" if "pc ?s' < ?n"
  proof -
    from that have "pc s < ?n" using sc(3) by (simp split: if_splits)
    with ci have "cycle s = pc s + total_stalls s" by (simp add: cycle_inv_def)
    with \<open>pc s < ?n\<close> show ?thesis using sc by simp
  qed
  have part2: "cycle ?s' = ?n + total_stalls ?s' + int k" if x: "in_slot ?s' k (?n - 1)" for k
  proof (cases "0 < stall_counter s")
    case True
    note m = stall_step_moves [OF inv True]
    from True sid have id: "0 \<le> pipe s ! 1" by (simp add: stalled_in_id_def)
    show ?thesis
    proof (cases "k \<le> 1")
      case True
      with m(2) [OF x] have "in_slot s k (?n - 1)" by simp
      with ci have "cycle s = ?n + total_stalls s + int k" by (rule cycle_inv_slot)
      with \<open>0 < stall_counter s\<close> show ?thesis using sc by simp
    next
      case False
      with m(2) [OF x] have prev: "in_slot s (k - 1) (?n - 1)" by simp
      with inv id have "k - 1 \<le> 1" by (rule youngest_not_behind_id)
      with False have k2: "k = 2" by simp
      with prev have "in_slot s 1 (?n - 1)" by simp
      from m(1) [OF this] have "\<not> in_slot ?s' 2 (?n - 1)"
        by (simp add: numeral_2_eq_2)
      with x k2 show ?thesis by simp
    qed
  next
    case False
    note m = advance_step_moves [OF inv False]
    show ?thesis
    proof (cases "k = 0")
      case True
      with m(2) [OF x] have "?n - 1 = pc s" by simp
      then have lt: "pc s < ?n" by simp
      with ci have "cycle s = pc s + total_stalls s" by (simp add: cycle_inv_def)
      with True False \<open>?n - 1 = pc s\<close> show ?thesis using sc by simp
    next
      case k: False
      with m(2) [OF x] have prev: "in_slot s (k - 1) (?n - 1)" by simp
      with ci have "cycle s = ?n + total_stalls s + int (k - 1)" by (rule cycle_inv_slot)
      with k False show ?thesis using sc by (simp add: of_nat_diff)
    qed
  qed
  have part3: "cycle ?s' = ?n + total_stalls ?s' + 5" if fin: "completed ?s' = ?n"
  proof -
    from fin run cs have e0: "0 \<le> pipe s ! 4" and c1: "completed s = ?n - 1"
      using occ_bounds [of "pipe s ! 4"] by (auto simp: occ_def split: if_splits)
    then have wb: "in_slot s 4 (pipe s ! 4)" by (simp add: in_slot_def)
    with inv have "completed s \<le> pipe s ! 4 \<and> pipe s ! 4 < pc s" by (rule pipe_inv_range)
    with c1 pcn have e: "pipe s ! 4 = ?n - 1" by simp
    with wb have y: "in_slot s 4 (?n - 1)" by simp
    with ci have c: "cycle s = ?n + total_stalls s + int 4" by (rule cycle_inv_slot)
    have "\<not> 0 < stall_counter s"
    proof
      assume "0 < stall_counter s"
      with sid have "0 \<le> pipe s ! 1" by (simp add: stalled_in_id_def)
      with inv have "(4::nat) \<le> 1" using y by (rule youngest_not_behind_id)
      then show False by simp
    qed
    with c show ?thesis using sc by simp
  qed
  show ?thesis
    unfolding cycle_inv_def using part1 part2 part3 by blast
qed

lemma cycle_inv_init: "0 < n \<Longrightarrow> cycle_inv n init_state"
  by (simp add: cycle_inv_def init_state_def in_slot_def)

lemma reachable_cycle_inv:
  assumes "prog \<noteq> []" "reachable prog s"
  shows "cycle_inv (int (length prog)) s"
  using assms(2)
proof (induction rule: reachable.induct)
  case start
  from assms(1) show ?case by (simp add: cycle_inv_init)
next
  case (cycle s)
  then show ?case
    using reachable_inv [of prog s] reachable_stalled_in_id [of prog s]
    by (simp add: cycle_inv_step)
qed

subsection \<open>Programs without hazards\<close>

lemma hazard_free_no_request:
  assumes vp: "valid_program prog" and hf: "hazard_free prog"
    and inv: "pipe_inv (int (length prog)) s"
  shows "needed_stalls_for_id (pipe s ! 0) (pipe s ! 1) (pipe s ! 2) prog = 0"
proof (cases "0 \<le> pipe s ! 0")
  case False
  then show ?thesis by (simp add: needed_stalls_for_id_def)
next
  case True
  let ?a = "pipe s ! 0" and ?b = "pipe s ! 1" and ?c = "pipe s ! 2"
  from inv True have a: "?a = pc s - 1" and pcn: "pc s \<le> int (length prog)"
    and b: "0 \<le> ?b \<longrightarrow> ?b = ?a - 1"
    and c: "0 \<le> ?c \<longrightarrow> ?c = ?a - 1 \<or> ?c = ?a - 2"
    by (auto simp: pipe_inv_def Let_def occ_def split: if_splits)
  define i where "i = nat ?a"
  from True a pcn have i: "i < length prog" "?a = int i" by (simp_all add: i_def)
  from hf i(1) have h:
    "1 \<le> i \<longrightarrow> rd (prog ! (i - 1)) \<notin> set (sources (prog ! i))"
    "2 \<le> i \<longrightarrow> rd (prog ! (i - 2)) \<notin> set (sources (prog ! i))"
    by (simp_all add: hazard_free_def list_all_length)
  have rc: "rs_count (prog ! i) \<le> length (rs (prog ! i))"
    using vp i(1) by (rule valid_program_sources)
  have nb: "0 \<le> ?b \<Longrightarrow> \<not> reg_in_sources (rd (prog ! nat ?b)) (prog ! i)"
  proof -
    assume b0: "0 \<le> ?b"
    with b i(2) have "nat ?b = i - 1" "1 \<le> i" by auto
    with h(1) show ?thesis by (simp add: reg_in_sources_iff [OF rc])
  qed
  have nc: "0 \<le> ?c \<Longrightarrow> \<not> reg_in_sources (rd (prog ! nat ?c)) (prog ! i)"
  proof -
    assume c0: "0 \<le> ?c"
    with c i(2) consider "nat ?c = i - 1" "1 \<le> i" | "nat ?c = i - 2" "2 \<le> i" by auto
    then show ?thesis using h by cases (simp_all add: reg_in_sources_iff [OF rc])
  qed
  have ni: "nat ?a = i" by (simp add: i_def)
  show ?thesis
    unfolding needed_stalls_for_id_def ni using nb nc True by simp
qed

lemma hazard_free_no_stall:
  assumes vp: "valid_program prog" and hf: "hazard_free prog" and r: "reachable prog s"
  shows "stall_counter s = 0 \<and> total_stalls s = 0"
  using r
proof (induction rule: reachable.induct)
  case start
  show ?case by (simp add: init_state_def)
next
  case (cycle s)
  have inv: "pipe_inv (int (length prog)) s" using cycle.hyps(1) by (rule reachable_inv)
  note sc = step_counters [OF inv]
  have "needed_stalls_for_id (pipe s ! 0) (pipe s ! 1) (pipe s ! 2) prog = 0"
    using vp hf inv by (rule hazard_free_no_request)
  with cycle.IH show ?case using sc by simp
qed

lemma hazard_free_simulator:
  assumes vp: "valid_program prog" and hf: "hazard_free prog"
  shows "simulator_main prog = Some (Inr (int (length prog) + 5, 0))"
proof -
  from vp have ne: "prog \<noteq> []" by (simp add: valid_program_def)
  obtain s' where s': "sim_loop prog init_state = Some s'" "reachable prog s'"
    "completed s' = int (length prog)"
    using sim_loop_returns [OF reachable.start, of prog] by blast
  from ne s'(2) have "cycle_inv (int (length prog)) s'" by (rule reachable_cycle_inv)
  with s'(3) have "cycle s' = int (length prog) + total_stalls s' + 5"
    by (simp add: cycle_inv_def)
  moreover have "total_stalls s' = 0" using hazard_free_no_stall [OF vp hf s'(2)] by simp
  ultimately show ?thesis using ne s'(1) by (simp add: simulator_main_def)
qed

subsection \<open>The stall count of the simulator\<close>

lemma stall_inv_init: "stall_inv prog init_state"
  by (simp add: stall_inv_def init_state_def occ_def)

lemma first_instruction_alone:
  assumes "pipe_inv n s" "pipe s ! 0 = 0"
  shows "pipe s ! 1 = - 1" "pipe s ! 2 = - 1"
proof -
  from assms(1) have ok: "slots_ok s" by (simp add: pipe_inv_def)
  then obtain a b c d e where p: "pipe s = [a, b, c, d, e]"
    and bd: "- 1 \<le> a" "- 1 \<le> b" "- 1 \<le> c" "- 1 \<le> d" "- 1 \<le> e"
    by (rule slots_okE)
  from assms p have a: "a = 0" by simp
  from assms(1) p have eqs: "0 \<le> a \<longrightarrow> a = pc s - 1" "0 \<le> b \<longrightarrow> b = pc s - 1 - occ a"
    "0 \<le> c \<longrightarrow> c = pc s - 1 - occ a - occ b"
    by (simp_all add: pipe_inv_def Let_def)
  have oa: "occ a = 1" using a by (simp add: occ_def)
  from eqs(1) a have pc1: "pc s = 1" by simp
  from eqs(2) oa pc1 bd(2) have b: "b = - 1" by auto
  then have ob: "occ b = 0" by simp
  from eqs(3) oa ob pc1 bd(3) have c: "c = - 1" by auto
  from b c p show "pipe s ! 1 = - 1" "pipe s ! 2 = - 1" by simp_all
qed

lemma request_is_sim_stall:
  assumes inv: "pipe_inv (int (length prog)) s" and si: "stall_inv prog s"
    and sc: "stall_counter s = 0" and a: "0 \<le> pipe s ! 0"
  shows "needed_stalls_for_id (pipe s ! 0) (pipe s ! 1) (pipe s ! 2) prog
           = sim_stall prog (nat (pipe s ! 0))"
proof (cases "nat (pipe s ! 0)")
  case 0
  with a have z: "pipe s ! 0 = 0" by simp
  from first_instruction_alone [OF inv z] z 0 show ?thesis by simp
next
  case (Suc i)
  with a have ai: "pipe s ! 0 = int (Suc i)" by linarith
  with si have b: "pipe s ! 1 = int i" by (simp add: stall_inv_def)
  with si sc have c: "pipe s ! 2 = (if sim_stall prog i = 0 then int i - 1 else - 1)"
    by (simp add: stall_inv_def)
  have "(if sim_stall prog i = 0 then int i - 1 else - 1)
        = (if 0 < i \<and> sim_stall prog i = 0 then int i - 1 else - 1)"
    by (cases i) simp_all
  with ai b c Suc show ?thesis by simp
qed

lemma stall_inv_step:
  assumes inv: "pipe_inv (int (length prog)) s" and si: "stall_inv prog s"
  shows "stall_inv prog (step prog s)"
proof -
  let ?n = "int (length prog)"
  from inv have ok: "slots_ok s" by (simp add: pipe_inv_def)
  then obtain a b c d e where p: "pipe s = [a, b, c, d, e]"
    and bd: "- 1 \<le> a" "- 1 \<le> b" "- 1 \<le> c" "- 1 \<le> d" "- 1 \<le> e"
    by (rule slots_okE)
  from inv p have nr: "0 \<le> a \<longrightarrow> b \<noteq> a"
    using pipe_inv_no_revert [of ?n s] by simp
  from inv have sc0: "0 \<le> stall_counter s" and pcn: "pc s \<le> ?n"
    by (simp_all add: pipe_inv_def)
  from inv p have a_pc: "0 \<le> a \<longrightarrow> a = pc s - 1" by (simp add: pipe_inv_def Let_def)
  have pc0: "0 \<le> pc s" using inv by (rule pipe_inv_pc_nonneg)
  from si p have D: "0 < pc s \<and> pc s < ?n \<longrightarrow> 0 \<le> a"
    and C: "0 < a \<longrightarrow> b = a - 1"
    and B: "0 \<le> b \<and> sim_stall prog (nat b) = 0 \<longrightarrow> stall_counter s = 0 \<and> c = b - 1"
      "0 \<le> b \<and> sim_stall prog (nat b) \<noteq> 0 \<and> stall_counter s = 0 \<longrightarrow> c = - 1"
    and A: "total_stalls s + stall_counter s = sum (sim_stall prog) {..<nat (pc s - occ a)}"
    by (simp_all add: stall_inv_def)
  show ?thesis
  proof (cases "0 < stall_counter s")
    case True
    have sh: "step prog s = \<lparr>pipe = [a, b, - 1, c, d], pc = pc s,
            completed = completed s + occ e,
            total_stalls = total_stalls s + 1, cycle = cycle s + 1,
            stall_counter = stall_counter s - 1\<rparr>"
      using p bd True by (intro step_stall_shape) simp_all
    from B(1) True have B': "0 \<le> b \<longrightarrow> sim_stall prog (nat b) \<noteq> 0"
      by auto
    show ?thesis
      unfolding stall_inv_def sh using D C B' A by auto
  next
    case False
    with sc0 have sc: "stall_counter s = 0" by simp
    define r where "r = needed_stalls_for_id a b c prog"
    have sh: "step prog s =
           \<lparr>pipe = [if pc s < ?n then pc s else - 1, a, b, c, d],
            pc = (if pc s < ?n then pc s + 1 else pc s),
            completed = completed s + occ e,
            total_stalls = total_stalls s, cycle = cycle s + 1,
            stall_counter = (if 0 < r then r else stall_counter s)\<rparr>"
      unfolding r_def using p bd False nr by (intro step_advance_shape) simp_all
    have r0: "0 \<le> r" unfolding r_def by (rule needed_stalls_bounds)
    have ra: "r = (if 0 \<le> a then sim_stall prog (nat a) else 0)"
    proof (cases "0 \<le> a")
      case True
      with request_is_sim_stall [OF inv si sc] p show ?thesis by (simp add: r_def)
    next
      case False
      then show ?thesis by (simp add: r_def needed_stalls_for_id_def)
    qed
    have scn: "(if 0 < r then r else stall_counter s) = r" using r0 sc by simp
    have D': "0 < pc s \<and> pc s < ?n \<longrightarrow> a = pc s - 1 \<and> 0 \<le> a" using D a_pc by simp
    have B1: "0 \<le> a \<and> sim_stall prog (nat a) = 0 \<longrightarrow> r = 0 \<and> b = a - 1"
    proof (cases "a = 0")
      case True
      with first_instruction_alone [OF inv] p ra show ?thesis by simp
    next
      case False
      with C ra show ?thesis by simp
    qed
    have B2: "0 \<le> a \<and> sim_stall prog (nat a) \<noteq> 0 \<longrightarrow> r \<noteq> 0"
      using ra by simp
    have A': "total_stalls s + r =
        sum (sim_stall prog)
          {..<nat ((if pc s < ?n then pc s + 1 else pc s)
                   - occ (if pc s < ?n then pc s else - 1))}"
    proof (cases "0 \<le> a")
      case True
      with a_pc have apc: "pc s = a + 1" by simp
      have "nat ((if pc s < ?n then pc s + 1 else pc s)
                   - occ (if pc s < ?n then pc s else - 1)) = Suc (nat a)"
        using True apc by (auto simp: occ_def nat_add_distrib)
      moreover have "nat (pc s - occ a) = nat a" using True apc by (simp add: occ_def)
      ultimately show ?thesis using A sc ra True by simp
    next
      case False
      have "nat ((if pc s < ?n then pc s + 1 else pc s)
                   - occ (if pc s < ?n then pc s else - 1)) = nat (pc s - occ a)"
        using False pc0 by (simp add: occ_def)
      with A sc ra False show ?thesis by simp
    qed
    show ?thesis
      unfolding stall_inv_def sh scn using D' B1 B2 A' pc0 by auto
  qed
qed

lemma reachable_stall_inv: "reachable prog s \<Longrightarrow> stall_inv prog s"
proof (induction rule: reachable.induct)
  case start
  show ?case by (rule stall_inv_init)
next
  case (cycle s)
  then show ?case using reachable_inv [of prog s] by (simp add: stall_inv_step)
qed

lemma simulator_totals:
  assumes "prog \<noteq> []"
  shows "simulator_main prog =
           Some (Inr (int (length prog) + 5 + sim_stall_total prog, sim_stall_total prog))"
proof -
  let ?n = "int (length prog)"
  obtain s' where s': "sim_loop prog init_state = Some s'" "reachable prog s'"
    "completed s' = ?n"
    using sim_loop_returns [OF reachable.start, of prog] by blast
  have inv: "pipe_inv ?n s'" using s'(2) by (rule reachable_inv)
  from assms s'(2) have "cycle_inv ?n s'" by (rule reachable_cycle_inv)
  with s'(3) have cyc: "cycle s' = ?n + total_stalls s' + 5"
    by (simp add: cycle_inv_def)
  from inv s'(3) have sum0: "pc s' - occ (pipe s' ! 0) - occ (pipe s' ! 1) - occ (pipe s' ! 2)
      - occ (pipe s' ! 3) - occ (pipe s' ! 4) = ?n" and pcn: "pc s' \<le> ?n"
    by (simp_all add: pipe_inv_def Let_def)
  note ob = occ_bounds [of "pipe s' ! 0"] occ_bounds [of "pipe s' ! 1"]
    occ_bounds [of "pipe s' ! 2"] occ_bounds [of "pipe s' ! 3"] occ_bounds [of "pipe s' ! 4"]
  from sum0 pcn ob have e: "occ (pipe s' ! 0) = 0" "occ (pipe s' ! 1) = 0" "pc s' = ?n"
    by linarith+
  from e(2) have "\<not> 0 \<le> pipe s' ! 1" by (simp add: occ_def split: if_splits)
  with reachable_stalled_in_id [OF s'(2)] have "\<not> 0 < stall_counter s'"
    by (auto simp: stalled_in_id_def)
  with inv have sc: "stall_counter s' = 0" by (simp add: pipe_inv_def)
  from reachable_stall_inv [OF s'(2)] have
    "total_stalls s' + stall_counter s' =
       sum (sim_stall prog) {..<nat (pc s' - occ (pipe s' ! 0))}"
    by (simp add: stall_inv_def)
  with sc e have "total_stalls s' = sim_stall_total prog"
    by (simp add: sim_stall_total_def)
  with cyc assms s'(1) show ?thesis by (simp add: simulator_main_def)
qed

lemma sim_stall_rule:
  assumes vp: "valid_program prog" and i: "i < length prog"
  shows "sim_stall prog i =
           stall_for (if i = 0 then [] else rd (prog ! (i - 1)))
                     (if 2 \<le> i \<and> sim_stall prog (i - 1) = 0 then rd (prog ! (i - 2)) else [])
                     (prog ! i)"
proof (cases i)
  case 0
  then show ?thesis by (simp add: needed_stalls_for_id_def stall_for_def)
next
  case (Suc j)
  with i have j: "j < length prog" by simp
  have rj: "rd (prog ! j) \<noteq> []" using vp j by (rule valid_program_sources)
  show ?thesis
  proof (cases j)
    case 0
    with Suc rj show ?thesis by (simp add: needed_stalls_for_id_def stall_for_def)
  next
    case (Suc k)
    with j have k: "k < length prog" by simp
    have rk: "rd (prog ! k) \<noteq> []" using vp k by (rule valid_program_sources)
    have nk: "nat (int (Suc k) - 1) = k" by simp
    from \<open>i = Suc j\<close> Suc rj rk show ?thesis
      by (simp add: needed_stalls_for_id_def stall_for_def nk del: of_nat_Suc)
  qed
qed

lemma stall_for_forget_second: "stall_for d1 [] ins \<le> stall_for d1 d2 ins"
  by (simp add: stall_for_def)

lemma sim_stall_le_timeline:
  assumes vp: "valid_program prog" and i: "i < length prog"
  shows "sim_stall prog i \<le> stalls prog ! i"
proof -
  have t: "stalls prog ! i =
       stall_for (if i = 0 then [] else rd (prog ! (i - 1)))
                 (if i = 0 then [] else if i = 1 then [] else rd (prog ! (i - 2)))
                 (prog ! i)"
    unfolding stalls_def using i by (rule stalls_loop_nth)
  show ?thesis
  proof (cases "2 \<le> i \<and> sim_stall prog (i - 1) = 0")
    case True
    then have "(if i = 0 then [] else if i = 1 then [] else rd (prog ! (i - 2)))
               = rd (prog ! (i - 2))" by auto
    with True t sim_stall_rule [OF vp i] show ?thesis by simp
  next
    case False
    with t sim_stall_rule [OF vp i] show ?thesis
      using stall_for_forget_second by simp
  qed
qed

lemma sim_stall_total_le:
  assumes vp: "valid_program prog"
  shows "sim_stall_total prog \<le> sum_stalls prog"
proof -
  have len: "length (stalls prog) = length prog"
    by (simp add: stalls_def stalls_loop_length)
  have "sum_stalls prog = (\<Sum>i<length prog. stalls prog ! i)"
    unfolding sum_stalls_def by (simp add: sum_list_sum_nth len atLeast0LessThan)
  moreover have "sum (sim_stall prog) {..<length prog} \<le> (\<Sum>i<length prog. stalls prog ! i)"
    by (rule sum_mono) (simp add: sim_stall_le_timeline [OF vp])
  ultimately show ?thesis by (simp add: sim_stall_total_def)
qed

lemma two_programs_compared:
  assumes vp: "valid_program prog"
  shows "\<exists>c st. simulator_main prog = Some (Inr (c, st))
          \<and> c = int (length prog) + 5 + st
          \<and> st = sim_stall_total prog
          \<and> st \<le> sum_stalls prog
          \<and> timeline_main prog = Inr (int (length prog) + 4 + sum_stalls prog, sum_stalls prog)"
proof -
  from vp have ne: "prog \<noteq> []" by (simp add: valid_program_def)
  show ?thesis
    using simulator_totals [OF ne] sim_stall_total_le [OF vp] sum_stalls_total [OF ne] ne
    by (simp add: timeline_main_def)
qed

subsection \<open>The claims about both programs\<close>

text \<open>
  Claim C1 asks that the simulator's final \<^verbatim>\<open>cycle\<close> equals the calculator's
  \<^verbatim>\<open>WBc[n-1]\<close>. What holds for every valid program: the simulator reports
  \<open>N + 5\<close> cycles plus its own stalls, the calculator \<open>N + 4\<close> plus its own, and the
  simulator never counts more stalls than the calculator. The last instruction reaches
  the WB slot in the cycle the calculator names, but the loop counts one more iteration,
  the one that retires it. So the two reports agree only where the calculator counts
  exactly one stall more than the simulator. For the single instruction
  \<^verbatim>\<open>add x1, x2, x3\<close> the simulator reports 6 cycles and the calculator 5, the base
  \<open>N + 4\<close> that the simulator prints itself.
\<close>

theorem cycle_totals_compared:
  assumes "valid_program prog"
  shows "\<exists>c st. simulator_main prog = Some (Inr (c, st))
          \<and> c = int (length prog) + 5 + st
          \<and> st \<le> sum_stalls prog
          \<and> total_cycles prog = int (length prog) + 4 + sum_stalls prog
          \<and> c \<le> total_cycles prog + 1
          \<and> (c = total_cycles prog \<longleftrightarrow> sum_stalls prog = st + 1)"
proof -
  from two_programs_compared [OF assms] obtain c st where
    r: "simulator_main prog = Some (Inr (c, st))" "c = int (length prog) + 5 + st"
      "st \<le> sum_stalls prog"
      "timeline_main prog = Inr (int (length prog) + 4 + sum_stalls prog, sum_stalls prog)"
    by blast
  from assms have "prog \<noteq> []" by (simp add: valid_program_def)
  with r(4) have t: "total_cycles prog = int (length prog) + 4 + sum_stalls prog"
    by (simp add: timeline_main_def)
  from r(1,2,3) t show ?thesis by auto
qed

lemma single_instruction_eval:
  "valid_program [instr_add ''x1'' ''x2'' ''x3'']"
  "simulator_main [instr_add ''x1'' ''x2'' ''x3''] = Some (Inr (6, 0))"
  "total_cycles [instr_add ''x1'' ''x2'' ''x3''] = 5"
  "sum_stalls [instr_add ''x1'' ''x2'' ''x3''] = 0"
  by code_simp+

theorem cycle_totals_compared_witness:
  "valid_program [instr_add ''x1'' ''x2'' ''x3'']
   \<and> simulator_main [instr_add ''x1'' ''x2'' ''x3''] = Some (Inr (6, 0))
   \<and> total_cycles [instr_add ''x1'' ''x2'' ''x3''] = 5
   \<and> sum_stalls [instr_add ''x1'' ''x2'' ''x3''] = 0"
  using cycle_totals_compared [OF single_instruction_eval(1)] single_instruction_eval
  by simp

text \<open>
  Claim C2 asks that the simulator's \<^verbatim>\<open>total_stalls\<close> equals the calculator's sum of
  \<^verbatim>\<open>stalls[i]\<close>. What holds for every valid program: the simulator's total is the sum
  of \<open>sim_stall\<close>, which follows the calculator's rule except that the producer two
  instructions back is not seen when the instruction in between was stalled itself; so
  the simulator's stalls are at most the calculator's, instruction by instruction and in
  total. For \<^verbatim>\<open>add x1,x2,x3; sub x4,x1,x5; add x6,x1,x7\<close> the calculator counts
  0, 2, 1 and the simulator 0, 2, 0: when the third instruction enters ID the first has
  left MEM.
\<close>

theorem stall_totals_compared:
  assumes "valid_program prog"
  shows "(\<exists>c. simulator_main prog = Some (Inr (c, sim_stall_total prog)))
       \<and> sim_stall_total prog \<le> sum_stalls prog
       \<and> (\<forall>i < length prog.
            stalls prog ! i =
              stall_for (if i = 0 then [] else rd (prog ! (i - 1)))
                        (if 2 \<le> i then rd (prog ! (i - 2)) else [])
                        (prog ! i)
          \<and> sim_stall prog i =
              stall_for (if i = 0 then [] else rd (prog ! (i - 1)))
                        (if 2 \<le> i \<and> sim_stall prog (i - 1) = 0 then rd (prog ! (i - 2)) else [])
                        (prog ! i)
          \<and> sim_stall prog i \<le> stalls prog ! i)"
proof -
  from assms have ne: "prog \<noteq> []" by (simp add: valid_program_def)
  have 1: "\<exists>c. simulator_main prog = Some (Inr (c, sim_stall_total prog))"
    using simulator_totals [OF ne] by blast
  have 2: "sim_stall_total prog \<le> sum_stalls prog"
    using assms by (rule sim_stall_total_le)
  have 3: "stalls prog ! i =
              stall_for (if i = 0 then [] else rd (prog ! (i - 1)))
                        (if 2 \<le> i then rd (prog ! (i - 2)) else [])
                        (prog ! i)" if "i < length prog" for i
  proof -
    have "(if i = 0 then [] else if i = 1 then [] else rd (prog ! (i - 2)))
          = (if 2 \<le> i then rd (prog ! (i - 2)) else [])" by auto
    then show ?thesis
      unfolding stalls_def using stalls_loop_nth [OF that, of "[]" "[]"] by simp
  qed
  show ?thesis
    using 1 2 3 sim_stall_rule [OF assms] sim_stall_le_timeline [OF assms] by blast
qed

lemma stalled_then_second_order_eval:
  "valid_program stalled_then_second_order"
  "simulator_main stalled_then_second_order = Some (Inr (10, 2))"
  "timeline_main stalled_then_second_order = Inr (10, 3)"
  "stalls stalled_then_second_order = [0, 2, 1]"
  "sim_stall stalled_then_second_order 2 = 0"
  "sim_stall_total stalled_then_second_order = 2"
  "sum_stalls stalled_then_second_order = 3"
  by code_simp+

theorem stall_totals_compared_witness:
  "valid_program stalled_then_second_order
   \<and> simulator_main stalled_then_second_order = Some (Inr (10, 2))
   \<and> timeline_main stalled_then_second_order = Inr (10, 3)
   \<and> sim_stall_total stalled_then_second_order = 2
   \<and> sum_stalls stalled_then_second_order = 3
   \<and> sim_stall stalled_then_second_order 2 = 0
   \<and> stalls stalled_then_second_order ! 2 = 1"
  using stall_totals_compared [OF stalled_then_second_order_eval(1)]
    stalled_then_second_order_eval
  by simp

text \<open>
  Claim C5, scenario B: \<^verbatim>\<open>add x1,x2,x3; sub x4,x1,x5\<close>. The calculator gives the stalls
  0 and 2, fetch cycles 1 and 4 and 8 cycles in total; the simulator reports 9 cycles and
  2 stalls.
\<close>

theorem scenario_B_totals:
  "stalls scenario_B = [0, 2]
   \<and> map IFc (timeline scenario_B) = [1, 4]
   \<and> total_cycles scenario_B = 8
   \<and> simulator_main scenario_B = Some (Inr (9, 2))"
  by code_simp

text \<open>
  Claim C6. For a valid program in which no instruction reads the destination of one of the
  two instructions before it, the calculator gives no stall and \<open>WB[N-1] = N + 4\<close>; the
  simulator inserts no stall either, and reports \<open>N + 5\<close> cycles. Scenario A (three
  additions on nine different registers): 7 against 8.
\<close>

theorem hazard_free_totals:
  assumes "valid_program prog" "hazard_free prog"
  shows "(\<forall>i < length prog. stalls prog ! i = 0)
       \<and> total_cycles prog = int (length prog) + 4
       \<and> simulator_main prog = Some (Inr (int (length prog) + 5, 0))"
  using hazard_free_stalls [OF assms] hazard_free_timeline(2) [OF assms]
    hazard_free_simulator [OF assms]
  by blast

lemma scenario_A_eval:
  "valid_program scenario_A" "hazard_free scenario_A" "int (length scenario_A) = 3"
  "stalls scenario_A = [0, 0, 0]"
  by code_simp+

theorem hazard_free_totals_witness:
  "valid_program scenario_A \<and> hazard_free scenario_A
   \<and> stalls scenario_A = [0, 0, 0]
   \<and> total_cycles scenario_A = 7
   \<and> simulator_main scenario_A = Some (Inr (8, 0))"
  using hazard_free_totals [OF scenario_A_eval(1,2)] scenario_A_eval
  by simp

end
